theory Spec2Isabelle
  imports Main "HOL-Library.AList" "HOL-Library.Multiset"
begin

section \<open>Istanbul core: message admission and the backlog of future messages\<close>

text \<open>
  A shallow embedding of \<^verbatim>\<open>checkMessage\<close>, \<^verbatim>\<open>storeBacklog\<close>,
  \<^verbatim>\<open>getSortedBacklogSeqs\<close>, \<^verbatim>\<open>drainBacklogForSeq\<close>, \<^verbatim>\<open>processBacklog\<close> and
  \<^verbatim>\<open>toPriority\<close> of package \<^verbatim>\<open>core\<close> (consensus/istanbul/core, backlog.go).
  Go's \<^verbatim>\<open>*big.Int\<close> is \<open>int option\<close> (\<open>None\<close> is the nil pointer), \<^verbatim>\<open>uint64\<close> is
  \<open>nat\<close> below \<open>2 ^ 64\<close> with the wrap-around written out, Go maps are association
  lists read with \<open>map_of\<close>, and the mutex-protected fields of \<^verbatim>\<open>core\<close> are passed
  and returned explicitly.
\<close>

subsection \<open>Data\<close>

type_synonym address = nat

text \<open>\<^verbatim>\<open>istanbul.View\<close>: a struct of two \<^verbatim>\<open>*big.Int\<close>; a \<^verbatim>\<open>*istanbul.View\<close> is a
  \<open>View option\<close>.\<close>

record View =
  Sequence :: "int option"
  Round :: "int option"

text \<open>Modelled from the spec: the wire payload and \<^verbatim>\<open>Message.Decode\<close> (RLP, package
  istanbul) are not among the sources. "The payload decodes (out of scope) to a view",
  a pair of unsigned integers (sequence, round), or decoding fails. \<open>Encoded s r\<close> is a
  payload that decodes, into the struct that belongs to the message's code, with the view
  \<open>(s, r)\<close>; \<open>Undecodable\<close> is a payload on which \<^verbatim>\<open>Decode\<close> returns an error.\<close>

datatype payload = Undecodable | Encoded nat nat

record Message =
  Code :: nat
  Msg :: payload
  Address :: address

definition Decode :: "Message \<Rightarrow> View option" where
  "Decode msg = (case Msg msg of
      Undecodable \<Rightarrow> None
    | Encoded s r \<Rightarrow> Some \<lparr>Sequence = Some (int s), Round = Some (int r)\<rparr>)"

text \<open>Modelled from the spec: the message codes are constants of package istanbul, not
  among the sources. The kinds are the closed set Preprepare, Prepare, Commit,
  RoundChange with "Preprepare < Prepare < Commit (on the integer encoding)".\<close>

definition MsgPreprepare :: nat where "MsgPreprepare = 0"
definition MsgPrepare :: nat where "MsgPrepare = 1"
definition MsgCommit :: nat where "MsgCommit = 2"
definition MsgRoundChange :: nat where "MsgRoundChange = 3"

datatype State =
  StateAcceptRequest | StatePreprepared | StatePrepared | StateCommitted
  | StateWaitingForNewRound

text \<open>The four sentinel errors of the package, and an error handed up from
  \<^verbatim>\<open>backend.LastSubject\<close>. A Go \<^verbatim>\<open>error\<close> result is an \<open>error option\<close>; \<open>None\<close> is
  \<^verbatim>\<open>nil\<close>, the message is admitted.\<close>

datatype error =
  errInvalidMessage | errFutureMessage | errOldMessage | errTooFarInTheFutureMessage
  | errBackend string

text \<open>A run-time panic of Go.\<close>

datatype fault = NilPointerDereference

text \<open>\<^verbatim>\<open>prque.Prque\<close>: the entries with their priorities, in the order they were
  pushed.\<close>

type_synonym Prque = "(Message \<times> int) list"

text \<open>A \<^verbatim>\<open>backlogEvent\<close> handed to \<^verbatim>\<open>sendEvent\<close>.\<close>

record backlogEvent =
  event_src :: address
  event_msg :: Message

text \<open>The fields of \<^verbatim>\<open>core\<close> that the backlog reads and writes. \<open>current_Sequence\<close>,
  \<open>current_Round\<close> and \<open>current_DesiredRound\<close> are what the round state \<^verbatim>\<open>c.current\<close>
  answers; \<open>backend_LastSubject\<close> is the result of \<^verbatim>\<open>c.backend.LastSubject()\<close>, an
  error or the (sequence, round) of the subject's view; \<open>valSet\<close> lists the addresses of
  the validators; \<open>started\<close> collects the sends that \<^verbatim>\<open>go c.sendEvent\<close> has started,
  in the order of the go statements. Each of them runs in a goroutine of its own, so
  this is not the order in which the bus receives them: see \<open>sendEvents\<close>.\<close>

record core =
  address :: address
  state :: State
  current_Sequence :: int
  current_Round :: int
  current_DesiredRound :: int
  backend_LastSubject :: "string + (int \<times> int)"
  valSet :: "address list"
  backlogBySeq :: "(nat \<times> Prque) list"
  backlogCountByVal :: "(address \<times> int) list"
  backlogTotal :: int
  started :: "backlogEvent list"

subsection \<open>Constants\<close>

definition msgPriority :: "nat \<Rightarrow> nat" where
  "msgPriority code =
     (if code = MsgPreprepare then 1
      else if code = MsgCommit then 2
      else if code = MsgPrepare then 3
      else 0)"

definition acceptMaxFutureSequence :: int where "acceptMaxFutureSequence = 10"
definition acceptMaxFutureMsgsFromOneValidator :: int where
  "acceptMaxFutureMsgsFromOneValidator = 1000"
definition acceptMaxFutureMessages :: int where "acceptMaxFutureMessages = 10 * 1000"
definition acceptMaxFutureMessagesPruneBatch :: int where
  "acceptMaxFutureMessagesPruneBatch = 100"

subsection \<open>Collaborators\<close>

text \<open>\<^verbatim>\<open>(*big.Int).Uint64\<close>: the low 64 bits of the absolute value.\<close>

definition Uint64 :: "int \<Rightarrow> nat" where
  "Uint64 x = nat (\<bar>x\<bar> mod 2 ^ 64)"

text \<open>Modelled from the spec: \<^verbatim>\<open>View.Cmp\<close> (package istanbul) is not among the sources.
  "\<open>compare(a, b)\<close> returns -1/0/+1. Lexicographic: sequence first, tie-break on round."
  It is applied to the (sequence, round) of two views whose integers are set: the
  receiver has passed the nil checks of \<^verbatim>\<open>checkMessage\<close>, the argument is
  \<^verbatim>\<open>c.currentView()\<close> or the view of the last subject.\<close>

definition bigCmp :: "int \<Rightarrow> int \<Rightarrow> int" where
  "bigCmp x y = (if x < y then - 1 else if x = y then 0 else 1)"

definition Cmp :: "int \<times> int \<Rightarrow> int \<times> int \<Rightarrow> int" where
  "Cmp v y = (if bigCmp (fst v) (fst y) \<noteq> 0 then bigCmp (fst v) (fst y)
              else bigCmp (snd v) (snd y))"

text \<open>Modelled from the spec: \<^verbatim>\<open>c.currentView()\<close> is a method of \<^verbatim>\<open>core\<close> that is not
  among the sources: "\<open>currentView() \<rightarrow> (sequence, round)\<close>", the view of the round
  state, with both integers set.\<close>

definition currentView :: "core \<Rightarrow> int \<times> int" where
  "currentView c = (current_Sequence c, current_Round c)"

text \<open>Modelled from the spec: the validator set (package istanbul) is not among the
  sources. "\<open>validatorSet.getByAddress(addr) \<rightarrow> (index, validator)\<close>": the validator
  with that address, or nil when the address is not in the set. A validator is
  represented by its address, which is all the backlog reads of it.\<close>

definition GetByAddress :: "address list \<Rightarrow> address \<Rightarrow> address option" where
  "GetByAddress vs a = (if a \<in> set vs then Some a else None)"

text \<open>Modelled from the spec: \<^verbatim>\<open>sendEvent\<close> and the event bus are not among the sources.
  "\<open>post(src, msg)\<close> hands off to the consensus event loop asynchronously", and the bus
  keeps the order of the posts it gets. Every \<^verbatim>\<open>go c.sendEvent(ev)\<close> starts a goroutine
  that posts its event once, and nothing synchronises these goroutines, so the scheduler
  runs them in any order. \<open>sendEvents gs bus\<close>: the sends \<open>gs\<close>, listed in the order in
  which they were started, can run so that the bus receives the events in the order
  \<open>bus\<close>; the send that runs next is any of those that have not run.\<close>

inductive sendEvents :: "backlogEvent list \<Rightarrow> backlogEvent list \<Rightarrow> bool" where
  idle: "sendEvents [] []"
| post: "ev \<in> set gs \<Longrightarrow> sendEvents (remove1 ev gs) bus \<Longrightarrow> sendEvents gs (ev # bus)"

code_pred sendEvents .

text \<open>Modelled from the spec: \<^verbatim>\<open>prque\<close> (common/prque) is not among the sources. "Within
  a per-sequence queue, pops return messages in priority order", ties in arrival order
  (the spec's note on the tiebreak). The direction is the one the source fixes:
  \<^verbatim>\<open>toPriority\<close> gives a round change 0 with the comment "msgRoundChange comes first"
  and every other message a negative number, with Preprepare above Commit above
  Prepare, so a pop returns an entry of the greatest priority. \<open>front q\<close> is the
  earliest entry of the greatest priority of a queue that is not empty.\<close>

definition New :: Prque where
  "New = []"

definition Push :: "Prque \<Rightarrow> Message \<Rightarrow> int \<Rightarrow> Prque" where
  "Push q m p = q @ [(m, p)]"

definition Empty :: "Prque \<Rightarrow> bool" where
  "Empty q = (q = [])"

fun front :: "Message \<times> int \<Rightarrow> Prque \<Rightarrow> Message \<times> int" where
  "front x [] = x"
| "front x (y # ys) = (if snd x < snd y then front y ys else front x ys)"

definition PopItem :: "Prque \<Rightarrow> (Message \<times> Prque) option" where
  "PopItem q = (case q of
      [] \<Rightarrow> None
    | x # xs \<Rightarrow> Some (fst (front x xs), remove1 (front x xs) q))"

subsection \<open>checkMessage\<close>

definition checkMessage :: "core \<Rightarrow> nat \<Rightarrow> View option \<Rightarrow> error option" where
  "checkMessage c msgCode view =
     (case view of
        None \<Rightarrow> Some errInvalidMessage
      | Some v \<Rightarrow>
     (case Sequence v of
        None \<Rightarrow> Some errInvalidMessage
      | Some vSequence \<Rightarrow>
     (case Round v of
        None \<Rightarrow> Some errInvalidMessage
      | Some vRound \<Rightarrow>
        if vSequence > fst (currentView c) + acceptMaxFutureSequence
          then Some errTooFarInTheFutureMessage
        else if msgCode = MsgRoundChange then
          (if vSequence > fst (currentView c) then Some errFutureMessage
           else if vRound < current_DesiredRound c then Some errOldMessage
           else None)
        else if Cmp (vSequence, vRound) (currentView c) > 0 then Some errFutureMessage
        else if Cmp (vSequence, vRound) (currentView c) < 0 then
          (if msgCode = MsgCommit then
             (case backend_LastSubject c of
                Inl err \<Rightarrow> Some (errBackend err)
              | Inr lastSubject \<Rightarrow>
                  if Cmp (vSequence, vRound) lastSubject = 0 then None
                  else Some errOldMessage)
           else Some errOldMessage)
        else if state c = StateWaitingForNewRound then Some errFutureMessage
        else if state c = StateAcceptRequest then
          (if msgCode > MsgPreprepare then Some errFutureMessage else None)
        else None)))"

subsection \<open>toPriority\<close>

text \<open>\<^verbatim>\<open>-int64(view.Round.Uint64()*10 + uint64(msgPriority[msgCode]))\<close>: the sum wraps
  at \<open>2 ^ 64\<close> (\<open>uint64\<close>), the conversion reads it as a signed 64-bit number
  (\<open>int64\<close>), and the negation of the least \<^verbatim>\<open>int64\<close> is itself (\<open>neg64\<close>).
  The message code is compared before the view is touched; a nil view or round is
  dereferenced otherwise.\<close>

definition uint64 :: "int \<Rightarrow> int" where
  "uint64 x = x mod 2 ^ 64"

definition int64 :: "int \<Rightarrow> int" where
  "int64 u = (if uint64 u < 2 ^ 63 then uint64 u else uint64 u - 2 ^ 64)"

definition neg64 :: "int \<Rightarrow> int" where
  "neg64 x = (if x = - (2 ^ 63) then x else - x)"

definition toPriority :: "nat \<Rightarrow> View option \<Rightarrow> fault + int" where
  "toPriority msgCode view =
     (if msgCode = MsgRoundChange then Inr 0
      else case view of
        None \<Rightarrow> Inl NilPointerDereference
      | Some v \<Rightarrow>
     (case Round v of
        None \<Rightarrow> Inl NilPointerDereference
      | Some vRound \<Rightarrow>
          Inr (neg64 (int64
            (uint64 (int (Uint64 vRound) * 10 + uint64 (int (msgPriority msgCode))))))))"

subsection \<open>The backlog\<close>

text \<open>Reading a Go map of integers: a missing key reads as 0.\<close>

definition countOf :: "(address \<times> int) list \<Rightarrow> address \<Rightarrow> int" where
  "countOf m a = (case map_of m a of None \<Rightarrow> 0 | Some n \<Rightarrow> n)"

definition getSortedBacklogSeqs :: "core \<Rightarrow> nat list" where
  "getSortedBacklogSeqs c = sort (map fst (backlogBySeq c))"

text \<open>The loop of \<^verbatim>\<open>drainBacklogForSeq\<close>: pop until the queue is empty.
  \<open>popped\<close> is the body of the loop after the pop: hand the message to the callback
  when there is one and the sender is still a validator, then decrement both counters.
  The callbacks of the source touch no field of the backlog, so the queue is carried
  beside the state.\<close>

definition popped ::
  "(Message \<Rightarrow> address \<Rightarrow> core \<Rightarrow> core) option \<Rightarrow> Message \<Rightarrow> core \<Rightarrow> core" where
  "popped cb m c =
     (let c1 = (case cb of
                  None \<Rightarrow> c
                | Some f \<Rightarrow>
                    (case GetByAddress (valSet c) (Address m) of
                       None \<Rightarrow> c
                     | Some sender \<Rightarrow> f m sender c))
      in c1\<lparr>backlogCountByVal :=
               AList.update (Address m) (countOf (backlogCountByVal c1) (Address m) - 1)
                 (backlogCountByVal c1),
             backlogTotal := backlogTotal c1 - 1\<rparr>)"

function drainLoop ::
  "(Message \<Rightarrow> address \<Rightarrow> core \<Rightarrow> core) option \<Rightarrow> Prque \<Rightarrow> core \<Rightarrow> core" where
  "drainLoop cb backlogForSeq c =
     (if Empty backlogForSeq then c
      else case PopItem backlogForSeq of
        None \<Rightarrow> c
      | Some (m, rest) \<Rightarrow> drainLoop cb rest (popped cb m c))"
  by pat_completeness auto
termination
proof (relation "measure (\<lambda>(cb, q, c). length q)")
  show "wf (measure (\<lambda>(cb, q, c). length q))" by simp
next
  fix cb :: "(Message \<Rightarrow> address \<Rightarrow> core \<Rightarrow> core) option"
  fix backlogForSeq :: Prque and c :: core and x2 x y
  assume pop: "PopItem backlogForSeq = Some x2" and x2: "(x, y) = x2"
  have mem: "front a q \<in> set (a # q)" for a q
    by (induction q arbitrary: a) auto
  have len: "length (remove1 (front a q) (a # q)) = length q" for a q
    using mem [of a q] by (simp only: length_remove1 if_True) simp
  from pop x2 have "length y < length backlogForSeq"
    by (cases backlogForSeq) (auto simp add: PopItem_def len simp del: remove1.simps)
  then show "((cb, y, popped cb x c), cb, backlogForSeq, c)
      \<in> measure (\<lambda>(cb, q, c). length q)"
    by simp
qed

definition drainBacklogForSeq ::
  "core \<Rightarrow> nat \<Rightarrow> (Message \<Rightarrow> address \<Rightarrow> core \<Rightarrow> core) option \<Rightarrow> core" where
  "drainBacklogForSeq c seq cb =
     (case map_of (backlogBySeq c) seq of
        None \<Rightarrow> c
      | Some backlogForSeq \<Rightarrow>
          (let c1 = drainLoop cb backlogForSeq c
           in c1\<lparr>backlogBySeq := AList.delete seq (backlogBySeq c1)\<rparr>))"

text \<open>The pruning loop of \<^verbatim>\<open>storeBacklog\<close>, over \<^verbatim>\<open>backlogSeqs[len-1], ..., backlogSeqs[1]\<close>.\<close>

fun pruneLoop :: "nat list \<Rightarrow> core \<Rightarrow> core" where
  "pruneLoop [] c = c"
| "pruneLoop (seq # rest) c =
     (if seq \<le> Uint64 (fst (currentView c))
         \<or> backlogTotal c < acceptMaxFutureMessages - acceptMaxFutureMessagesPruneBatch
      then c
      else pruneLoop rest (drainBacklogForSeq c seq None))"

text \<open>The \<^verbatim>\<open>switch msg.Code\<close> of \<^verbatim>\<open>storeBacklog\<close>: \<open>None\<close> is the early return on a
  decoding error, \<open>Some v\<close> the value of \<^verbatim>\<open>v\<close> after the switch, nil for a code that
  no case matches.\<close>

definition storeBacklog_view :: "Message \<Rightarrow> View option option" where
  "storeBacklog_view msg =
     (if Code msg = MsgPreprepare then
        (case Decode msg of None \<Rightarrow> None | Some pView \<Rightarrow> Some (Some pView))
      else if Code msg = MsgPrepare \<or> Code msg = MsgCommit then
        (case Decode msg of None \<Rightarrow> None | Some pView \<Rightarrow> Some (Some pView))
      else if Code msg = MsgRoundChange then
        (case Decode msg of None \<Rightarrow> None | Some pView \<Rightarrow> Some (Some pView))
      else Some None)"

definition storeBacklog :: "core \<Rightarrow> Message \<Rightarrow> address \<Rightarrow> fault + core" where
  "storeBacklog c msg src =
     (if Address msg = address c then Inr c
      else case storeBacklog_view msg of
        None \<Rightarrow> Inr c
      | Some v \<Rightarrow>
          if countOf (backlogCountByVal c) (Address msg) > acceptMaxFutureMsgsFromOneValidator
          then Inr c
          else
            (let c1 = c\<lparr>backlogCountByVal :=
                          AList.update src (countOf (backlogCountByVal c) src + 1)
                            (backlogCountByVal c),
                        backlogTotal := backlogTotal c + 1\<rparr>
             in case v of
               None \<Rightarrow> Inl NilPointerDereference
             | Some vw \<Rightarrow>
            (case Sequence vw of
               None \<Rightarrow> Inl NilPointerDereference
             | Some vSequence \<Rightarrow>
            (let backlogForSeq =
                   (case map_of (backlogBySeq c1) (Uint64 vSequence) of
                      None \<Rightarrow> New
                    | Some q \<Rightarrow> q)
             in case toPriority (Code msg) v of
               Inl f \<Rightarrow> Inl f
             | Inr priority \<Rightarrow>
            (let c2 = c1\<lparr>backlogBySeq :=
                          AList.update (Uint64 vSequence) (Push backlogForSeq msg priority)
                            (backlogBySeq c1)\<rparr>
             in if backlogTotal c2 > acceptMaxFutureMessages
                then Inr (pruneLoop (rev (tl (getSortedBacklogSeqs c2))) c2)
                else Inr c2)))))"

text \<open>The callback of \<^verbatim>\<open>processBacklog\<close>: decode the view again (nil when decoding
  fails or no case matches the code), check the message, and start
  \<^verbatim>\<open>go c.sendEvent(backlogEvent{src, msg})\<close> when \<^verbatim>\<open>checkMessage\<close> returns nil. The
  callback returns as soon as the goroutine is started: it records the send in
  \<open>started\<close> and does not wait for the event to reach the bus.\<close>

definition processBacklog_view :: "Message \<Rightarrow> View option" where
  "processBacklog_view msg =
     (if Code msg = MsgPreprepare then Decode msg
      else if Code msg = MsgPrepare \<or> Code msg = MsgCommit then Decode msg
      else if Code msg = MsgRoundChange then Decode msg
      else None)"

definition replay :: "Message \<Rightarrow> address \<Rightarrow> core \<Rightarrow> core" where
  "replay msg src c =
     (case processBacklog_view msg of
        None \<Rightarrow> c
      | Some view \<Rightarrow>
          (case checkMessage c (Code msg) (Some view) of
             Some err \<Rightarrow> c
           | None \<Rightarrow> c\<lparr>started := started c @ [\<lparr>event_src = src, event_msg = msg\<rparr>]\<rparr>))"

fun processLoop :: "nat list \<Rightarrow> core \<Rightarrow> core" where
  "processLoop [] c = c"
| "processLoop (seq # rest) c =
     (if seq < Uint64 (fst (currentView c)) then
        processLoop rest (drainBacklogForSeq c seq None)
      else if seq = Uint64 (fst (currentView c)) then
        processLoop rest (drainBacklogForSeq c seq (Some replay))
      else c)"

definition processBacklog :: "core \<Rightarrow> core" where
  "processBacklog c = processLoop (getSortedBacklogSeqs c) c"

subsection \<open>Scenarios\<close>

text \<open>A core with an empty backlog, own address 0 and the validators 0 to 3, in the
  given round state.\<close>

definition fixture :: "int \<Rightarrow> int \<Rightarrow> int \<Rightarrow> State \<Rightarrow> string + (int \<times> int) \<Rightarrow> core" where
  "fixture s r d st lastSubject =
     \<lparr>address = 0, state = st, current_Sequence = s, current_Round = r,
      current_DesiredRound = d, backend_LastSubject = lastSubject, valSet = [0, 1, 2, 3],
      backlogBySeq = [], backlogCountByVal = [], backlogTotal = 0, started = []\<rparr>"

text \<open>A message of the given code for the view \<open>(s, r)\<close> from the given sender.\<close>

definition message :: "nat \<Rightarrow> nat \<Rightarrow> nat \<Rightarrow> address \<Rightarrow> Message" where
  "message code s r sender = \<lparr>Code = code, Msg = Encoded s r, Address = sender\<rparr>"

text \<open>The backlog after \<open>n\<close> Prepare messages for the view (6, 0) from the validator 1
  were stored at sequence 5, for \<open>n\<close> from 1 to 1001.\<close>

definition filled :: "nat \<Rightarrow> core" where
  "filled n =
     (fixture 5 0 0 StatePreprepared (Inr (4, 0)))
       \<lparr>backlogBySeq := [(6, replicate n (message MsgPrepare 6 0 1, - 3))],
        backlogCountByVal := [(1, int n)],
        backlogTotal := int n\<rparr>"

text \<open>The third scenario of the specification: four messages for the view (6, 0), in
  the order of their arrival.\<close>

definition arrivals :: "Message list" where
  "arrivals =
     [message MsgPrepare 6 0 1, message MsgPreprepare 6 0 2, message MsgCommit 6 0 3,
      message MsgRoundChange 6 0 1]"

text \<open>The fifth scenario of the specification: messages for the sequences 3 and 4.\<close>

definition stale :: "Message list" where
  "stale = [message MsgPrepare 3 0 1, message MsgCommit 4 1 2, message MsgRoundChange 4 2 3]"

text \<open>The backlog that holds the four arrivals, stored at sequence 5, and the backlog
  that holds the three stale messages, stored at sequence 2.\<close>

definition afterArrivals :: core where
  "afterArrivals =
     (fixture 5 0 0 StatePreprepared (Inr (4, 0)))
       \<lparr>backlogBySeq :=
          [(6, [(message MsgPrepare 6 0 1, - 3), (message MsgPreprepare 6 0 2, - 1),
                (message MsgCommit 6 0 3, - 2), (message MsgRoundChange 6 0 1, 0)])],
        backlogCountByVal := [(1, 2), (2, 1), (3, 1)],
        backlogTotal := 4\<rparr>"

definition afterStale :: core where
  "afterStale =
     (fixture 2 0 0 StatePreprepared (Inr (1, 0)))
       \<lparr>backlogBySeq :=
          [(3, [(message MsgPrepare 3 0 1, - 3)]),
           (4, [(message MsgCommit 4 1 2, - 12), (message MsgRoundChange 4 2 3, 0)])],
        backlogCountByVal := [(1, 1), (2, 1), (3, 1)],
        backlogTotal := 3\<rparr>"

text \<open>Storing a list of messages, each handed over with the validator that sent it; a
  panic ends the run.\<close>

fun storeAll :: "core \<Rightarrow> Message list \<Rightarrow> fault + core" where
  "storeAll c [] = Inr c"
| "storeAll c (m # ms) =
     (case storeBacklog c m (Address m) of
        Inl f \<Rightarrow> Inl f
      | Inr c' \<Rightarrow> storeAll c' ms)"

subsection \<open>Notions for the statements\<close>

text \<open>The entries of a queue in the order in which repeated pops return them.\<close>

function popOrder :: "Prque \<Rightarrow> (Message \<times> int) list" where
  "popOrder [] = []"
| "popOrder (x # xs) = front x xs # popOrder (remove1 (front x xs) (x # xs))"
  by pat_completeness auto
termination
proof (relation "measure length")
  show "wf (measure length)" by simp
next
  fix x :: "Message \<times> int" and xs :: Prque
  have mem: "front a q \<in> set (a # q)" for a q
    by (induction q arbitrary: a) auto
  have "length (remove1 (front x xs) (x # xs)) = length xs"
    using mem [of x xs] by (simp only: length_remove1 if_True) simp
  then show "(remove1 (front x xs) (x # xs), x # xs) \<in> measure length"
    by simp
qed

text \<open>The fields of \<^verbatim>\<open>core\<close> that the backlog only reads.\<close>

definition engine ::
  "core \<Rightarrow> address \<times> State \<times> int \<times> int \<times> int \<times> (string + (int \<times> int)) \<times> address list"
  where
  "engine c =
     (address c, state c, current_Sequence c, current_Round c, current_DesiredRound c,
      backend_LastSubject c, valSet c)"

text \<open>What the callback of \<^verbatim>\<open>processBacklog\<close> lets through: the sender is a validator,
  the view decodes, and \<^verbatim>\<open>checkMessage\<close> returns nil.\<close>

definition deliverable :: "core \<Rightarrow> Message \<Rightarrow> bool" where
  "deliverable c m =
     (Address m \<in> set (valSet c)
      \<and> (case processBacklog_view m of
           None \<Rightarrow> False
         | Some view \<Rightarrow> checkMessage c (Code m) (Some view) = None))"

definition replayed :: "core \<Rightarrow> Prque \<Rightarrow> backlogEvent list" where
  "replayed c q =
     map (\<lambda>m. \<lparr>event_src = Address m, event_msg = m\<rparr>)
       (filter (deliverable c) (map fst (popOrder q)))"

text \<open>Counter consistency: the keys of the two maps are distinct, and the total equals
  the sum of the counters of the senders and the sum of the sizes of the queues.\<close>

definition consistent :: "core \<Rightarrow> bool" where
  "consistent c =
     (distinct (map fst (backlogBySeq c))
      \<and> distinct (map fst (backlogCountByVal c))
      \<and> backlogTotal c = sum_list (map snd (backlogCountByVal c))
      \<and> backlogTotal c = sum_list (map ((\<lambda>q. int (length q)) \<circ> snd) (backlogBySeq c)))"

text \<open>A queue is filed under the key \<open>k\<close> when each of its messages decodes to a view
  whose sequence has the 64-bit value \<open>k\<close>, and is entered with the priority that
  \<^verbatim>\<open>toPriority\<close> gives it.\<close>

definition filed :: "nat \<Rightarrow> Prque \<Rightarrow> bool" where
  "filed k q =
     (\<forall>(m, p) \<in> set q.
        (\<exists>s r. Msg m = Encoded s r \<and> Uint64 (int s) = k)
        \<and> toPriority (Code m) (Decode m) = Inr p)"

definition allFiled :: "core \<Rightarrow> bool" where
  "allFiled c = (\<forall>(k, q) \<in> set (backlogBySeq c). filed k q)"

text \<open>The priority order of two events, as \<^verbatim>\<open>toPriority\<close> defines it: the first has
  a priority at least as high as the second.\<close>

definition precedes :: "backlogEvent \<Rightarrow> backlogEvent \<Rightarrow> bool" where
  "precedes e e' =
     (\<exists>p p'. toPriority (Code (event_msg e)) (Decode (event_msg e)) = Inr p
        \<and> toPriority (Code (event_msg e')) (Decode (event_msg e')) = Inr p'
        \<and> p' \<le> p)"

text \<open>The state of \<^verbatim>\<open>storeBacklog\<close> after the two counters are incremented and the
  message is pushed with priority \<open>p\<close> on the queue of the key \<open>k\<close>, before pruning.\<close>

definition parked :: "core \<Rightarrow> Message \<Rightarrow> address \<Rightarrow> nat \<Rightarrow> int \<Rightarrow> core" where
  "parked c msg src k p =
     c\<lparr>backlogCountByVal :=
         AList.update src (countOf (backlogCountByVal c) src + 1) (backlogCountByVal c),
       backlogTotal := backlogTotal c + 1,
       backlogBySeq :=
         AList.update k
           ((case map_of (backlogBySeq c) k of None \<Rightarrow> [] | Some q \<Rightarrow> q) @ [(msg, p)])
           (backlogBySeq c)\<rparr>"

text \<open>The states of the backlog that the engine can be in: it starts with an empty
  backlog, stores messages, replays the backlog, and moves on to other views and states
  in between.\<close>

inductive reachable :: "core \<Rightarrow> bool" where
  start: "backlogBySeq c = [] \<Longrightarrow> backlogCountByVal c = [] \<Longrightarrow> backlogTotal c = 0
    \<Longrightarrow> reachable c"
| store: "reachable c \<Longrightarrow> storeBacklog c msg src = Inr c' \<Longrightarrow> reachable c'"
| process: "reachable c \<Longrightarrow> reachable (processBacklog c)"
| engine: "reachable c \<Longrightarrow>
    reachable (c\<lparr>state := st, current_Sequence := s, current_Round := r,
      current_DesiredRound := d, backend_LastSubject := lastSubject, valSet := vs\<rparr>)"

section \<open>Admission\<close>

lemma codes_distinct:
  "MsgPreprepare \<noteq> MsgPrepare" "MsgPreprepare \<noteq> MsgCommit"
  "MsgPreprepare \<noteq> MsgRoundChange" "MsgPrepare \<noteq> MsgCommit"
  "MsgPrepare \<noteq> MsgRoundChange" "MsgCommit \<noteq> MsgRoundChange"
  by (simp_all add: MsgPreprepare_def MsgPrepare_def MsgCommit_def MsgRoundChange_def)

lemma Cmp_less: "Cmp v y < 0 \<longleftrightarrow> fst v < fst y \<or> (fst v = fst y \<and> snd v < snd y)"
  by (auto simp: Cmp_def bigCmp_def)

lemma Cmp_greater: "Cmp v y > 0 \<longleftrightarrow> fst v > fst y \<or> (fst v = fst y \<and> snd v > snd y)"
  by (auto simp: Cmp_def bigCmp_def)

lemma Cmp_eq: "Cmp v y = 0 \<longleftrightarrow> v = y"
  by (auto simp: Cmp_def bigCmp_def prod_eq_iff)

text \<open>\<^verbatim>\<open>checkMessage\<close> on a view whose pointers are all set.\<close>

lemma checkMessage_wf:
  "checkMessage c msgCode (Some \<lparr>Sequence = Some vs, Round = Some vr\<rparr>) =
     (if vs > current_Sequence c + 10 then Some errTooFarInTheFutureMessage
      else if msgCode = MsgRoundChange then
        (if vs > current_Sequence c then Some errFutureMessage
         else if vr < current_DesiredRound c then Some errOldMessage
         else None)
      else if Cmp (vs, vr) (currentView c) > 0 then Some errFutureMessage
      else if Cmp (vs, vr) (currentView c) < 0 then
        (if msgCode = MsgCommit then
           (case backend_LastSubject c of
              Inl err \<Rightarrow> Some (errBackend err)
            | Inr lastSubject \<Rightarrow>
                if Cmp (vs, vr) lastSubject = 0 then None else Some errOldMessage)
         else Some errOldMessage)
      else if state c = StateWaitingForNewRound then Some errFutureMessage
      else if state c = StateAcceptRequest then
        (if msgCode > MsgPreprepare then Some errFutureMessage else None)
      else None)"
  by (simp add: checkMessage_def currentView_def acceptMaxFutureSequence_def)

text \<open>
  C4, as the code has it. For a round change whose view is well-formed and at most 10
  sequences ahead, \<^verbatim>\<open>checkMessage\<close> returns \<^verbatim>\<open>errFutureMessage\<close> when the sequence
  is above the current one; otherwise (the sequence is the current one or below it) it
  returns \<^verbatim>\<open>errOldMessage\<close> when the round is below the desired round, and admits the
  message when the round is at least the desired round.
\<close>

theorem checkMessage_RoundChange:
  "vs \<le> current_Sequence c + 10 \<Longrightarrow>
   checkMessage c MsgRoundChange (Some \<lparr>Sequence = Some vs, Round = Some vr\<rparr>) =
     (if vs > current_Sequence c then Some errFutureMessage
      else if vr < current_DesiredRound c then Some errOldMessage
      else None)"
  by (simp add: checkMessage_wf)

text \<open>The scenario of the specification: current view (5, 2), desired round 4.\<close>

theorem checkMessage_RoundChange_witness:
  "checkMessage (fixture 5 2 4 StatePreprepared (Inr (4, 0))) MsgRoundChange
      (Some \<lparr>Sequence = Some 5, Round = Some 3\<rparr>) = Some errOldMessage
   \<and> checkMessage (fixture 5 2 4 StatePreprepared (Inr (4, 0))) MsgRoundChange
      (Some \<lparr>Sequence = Some 5, Round = Some 4\<rparr>) = None
   \<and> checkMessage (fixture 5 2 4 StatePreprepared (Inr (4, 0))) MsgRoundChange
      (Some \<lparr>Sequence = Some 6, Round = Some 0\<rparr>) = Some errFutureMessage"
  using checkMessage_RoundChange [of 5 "fixture 5 2 4 StatePreprepared (Inr (4, 0))" 3]
        checkMessage_RoundChange [of 5 "fixture 5 2 4 StatePreprepared (Inr (4, 0))" 4]
        checkMessage_RoundChange [of 6 "fixture 5 2 4 StatePreprepared (Inr (4, 0))" 0]
  by (simp add: fixture_def)

text \<open>
  C4 as stated fails: with current view (5, 2) and desired round 4, the round change for
  the view (4, 3) has a sequence that is neither above nor equal to the current one, so
  the claim promises that it is admitted; the code returns \<^verbatim>\<open>errOldMessage\<close>, because it
  compares the round with the desired round whatever the sequence.
\<close>

theorem checkMessage_RoundChange_past_sequence_counterexample:
  "\<not> (4 :: int) > 5 \<and> \<not> ((4 :: int) = 5 \<and> (3 :: int) < 4)
   \<and> checkMessage (fixture 5 2 4 StatePreprepared (Inr (4, 0))) MsgRoundChange
        (Some \<lparr>Sequence = Some 4, Round = Some 3\<rparr>) = Some errOldMessage"
  by (simp add: checkMessage_wf fixture_def)



text \<open>
  C6. For every message code and every well-formed view, \<^verbatim>\<open>checkMessage\<close> returns
  \<^verbatim>\<open>errTooFarInTheFutureMessage\<close> exactly when the sequence of the view is above the
  current sequence plus 10; no rule for a kind of message is looked at before.
\<close>

theorem checkMessage_TooFar:
  "checkMessage c msgCode (Some \<lparr>Sequence = Some vs, Round = Some vr\<rparr>)
     = Some errTooFarInTheFutureMessage
   \<longleftrightarrow> vs > current_Sequence c + 10"
  by (auto simp add: checkMessage_wf split: sum.splits)

text \<open>The scenario of the specification: current view (10, 0).\<close>

theorem checkMessage_TooFar_witness:
  "checkMessage (fixture 10 0 0 StateAcceptRequest (Inr (9, 3))) MsgPreprepare
      (Some \<lparr>Sequence = Some 21, Round = Some 0\<rparr>) = Some errTooFarInTheFutureMessage
   \<and> checkMessage (fixture 10 0 0 StateAcceptRequest (Inr (9, 3))) MsgPreprepare
      (Some \<lparr>Sequence = Some 20, Round = Some 0\<rparr>) = Some errFutureMessage"
  using checkMessage_TooFar [of "fixture 10 0 0 StateAcceptRequest (Inr (9, 3))"
          MsgPreprepare 21 0]
  by (simp add: fixture_def checkMessage_wf codes_distinct Cmp_greater currentView_def)

text \<open>
  C7, as the code has it. \<^verbatim>\<open>checkMessage\<close> returns nil or one of its four sentinel
  errors, or else the error of \<^verbatim>\<open>backend.LastSubject\<close>: that happens only for a commit,
  when the lookup of the last subject fails.
\<close>

theorem checkMessage_outcomes:
  "checkMessage c msgCode view \<in>
      {None, Some errFutureMessage, Some errOldMessage, Some errInvalidMessage,
       Some errTooFarInTheFutureMessage}
   \<or> (\<exists>err. backend_LastSubject c = Inl err \<and> msgCode = MsgCommit
          \<and> checkMessage c msgCode view = Some (errBackend err))"
  by (auto simp add: checkMessage_def split: option.splits sum.splits)

theorem checkMessage_outcomes_witness:
  "checkMessage (fixture 10 0 0 StateAcceptRequest (Inr (9, 3))) MsgCommit
      (Some \<lparr>Sequence = Some 9, Round = None\<rparr>) \<in>
      {None, Some errFutureMessage, Some errOldMessage, Some errInvalidMessage,
       Some errTooFarInTheFutureMessage}"
  using checkMessage_outcomes [of "fixture 10 0 0 StateAcceptRequest (Inr (9, 3))"
          MsgCommit "Some \<lparr>Sequence = Some 9, Round = None\<rparr>"]
  by (simp add: fixture_def)

text \<open>
  C7 as stated fails: a commit for the view (9, 3), below the current view (10, 0), makes
  \<^verbatim>\<open>checkMessage\<close> ask for the last subject; when that lookup fails, its error is
  returned, which is none of the five outcomes.
\<close>

theorem checkMessage_outcomes_counterexample:
  "checkMessage (fixture 10 0 0 StateAcceptRequest (Inl ''unknown block'')) MsgCommit
      (Some \<lparr>Sequence = Some 9, Round = Some 3\<rparr>) = Some (errBackend ''unknown block'')
   \<and> Some (errBackend ''unknown block'') \<notin>
      {None, Some errFutureMessage, Some errOldMessage, Some errInvalidMessage,
       Some errTooFarInTheFutureMessage}"
  by (simp add: checkMessage_wf fixture_def codes_distinct Cmp_less Cmp_greater Cmp_eq
        currentView_def)

section \<open>Priorities\<close>

lemma msgPriority_kinds:
  "msgPriority MsgPreprepare = 1" "msgPriority MsgCommit = 2" "msgPriority MsgPrepare = 3"
  by (simp_all add: msgPriority_def codes_distinct codes_distinct [symmetric])

lemma msgPriority_le: "msgPriority code \<le> 3"
  by (simp add: msgPriority_def)

lemma toPriority_in_range:
  assumes "code \<noteq> MsgRoundChange" and "0 \<le> r" and "10 * r + 3 < 2 ^ 63"
  shows "toPriority code (Some \<lparr>Sequence = s, Round = Some r\<rparr>)
           = Inr (- (10 * r + int (msgPriority code)))"
proof -
  have r64: "r < 2 ^ 64" using assms by simp
  have u: "int (Uint64 r) = r"
    using assms(2) r64 by (simp add: Uint64_def)
  have w: "uint64 (int (msgPriority code)) = int (msgPriority code)"
    using msgPriority_le [of code] by (simp add: uint64_def)
  let ?x = "r * 10 + int (msgPriority code)"
  have lo: "0 \<le> ?x" using assms(2) by simp
  have hi: "?x < 2 ^ 63" using assms(3) msgPriority_le [of code] by simp
  have x64: "uint64 ?x = ?x" using lo hi by (simp add: uint64_def)
  have "int64 ?x = ?x" using lo hi x64 by (simp add: int64_def)
  moreover have "neg64 ?x = - ?x" using lo by (simp add: neg64_def)
  ultimately show ?thesis
    using assms(1) u w x64 by (simp add: toPriority_def mult.commute)
qed

text \<open>
  C2, as the code has it. The greater number is the higher priority. For a round \<open>r\<close>
  with \<open>0 \<le> r\<close> and \<open>10 (r + 1) + 3 < 2 ^ 63\<close> (no wrap-around) and a kind other than
  a round change: the priority at round \<open>r + 1\<close> is below the priority at round \<open>r\<close>;
  at a fixed round the priority of Prepare is below that of Commit, which is below that
  of Preprepare; the priority of a round change is 0, above the priority of every message
  of the round that is not a round change.
\<close>

theorem toPriority_order:
  assumes "0 \<le> r" and "10 * (r + 1) + 3 < 2 ^ 63"
    and "kind \<in> {MsgPreprepare, MsgPrepare, MsgCommit}"
  shows "(\<exists>p q.
        toPriority kind (Some \<lparr>Sequence = s, Round = Some (r + 1)\<rparr>) = Inr p
      \<and> toPriority kind (Some \<lparr>Sequence = s, Round = Some r\<rparr>) = Inr q
      \<and> p < q)
    \<and> (\<exists>a b d.
        toPriority MsgPreprepare (Some \<lparr>Sequence = s, Round = Some r\<rparr>) = Inr a
      \<and> toPriority MsgCommit (Some \<lparr>Sequence = s, Round = Some r\<rparr>) = Inr b
      \<and> toPriority MsgPrepare (Some \<lparr>Sequence = s, Round = Some r\<rparr>) = Inr d
      \<and> d < b \<and> b < a)
    \<and> toPriority MsgRoundChange (Some \<lparr>Sequence = s, Round = Some r\<rparr>) = Inr 0
    \<and> (\<exists>q. toPriority kind (Some \<lparr>Sequence = s, Round = Some r\<rparr>) = Inr q \<and> q < 0)"
proof -
  have k: "kind \<noteq> MsgRoundChange" using assms(3) codes_distinct by auto
  have r0: "10 * r + 3 < 2 ^ 63" using assms(1,2) by simp
  have r1: "0 \<le> r + 1" using assms(1) by simp
  have pos: "0 < msgPriority kind" using assms(3) msgPriority_kinds by auto
  show ?thesis
    using assms(1) pos
    by (simp add: toPriority_in_range [OF k r1 assms(2)]
        toPriority_in_range [OF k assms(1) r0] toPriority_in_range [OF _ assms(1) r0]
        codes_distinct msgPriority_kinds)
      (simp add: toPriority_def)
qed

theorem toPriority_order_witness:
  "toPriority MsgCommit (Some \<lparr>Sequence = Some 6, Round = Some 1\<rparr>) = Inr (- 12)
   \<and> toPriority MsgCommit (Some \<lparr>Sequence = Some 6, Round = Some 0\<rparr>) = Inr (- 2)
   \<and> toPriority MsgPreprepare (Some \<lparr>Sequence = Some 6, Round = Some 0\<rparr>) = Inr (- 1)
   \<and> toPriority MsgPrepare (Some \<lparr>Sequence = Some 6, Round = Some 0\<rparr>) = Inr (- 3)
   \<and> toPriority MsgRoundChange (Some \<lparr>Sequence = Some 6, Round = Some 0\<rparr>) = Inr 0"
  using toPriority_order [of 0 MsgCommit "Some 6"]
  by (simp add: toPriority_in_range codes_distinct msgPriority_kinds)

text \<open>
  C2 as stated fails at round 0: Preprepare has priority -1 and Commit -2, so the
  priority of Preprepare is not below that of Commit; a round change has priority 0, which
  is not below -1.
\<close>

theorem toPriority_order_counterexample:
  "toPriority MsgPreprepare (Some \<lparr>Sequence = Some 6, Round = Some 0\<rparr>) = Inr (- 1)
   \<and> toPriority MsgCommit (Some \<lparr>Sequence = Some 6, Round = Some 0\<rparr>) = Inr (- 2)
   \<and> \<not> (- 1 :: int) < - 2
   \<and> toPriority MsgRoundChange (Some \<lparr>Sequence = Some 6, Round = Some 0\<rparr>) = Inr 0
   \<and> \<not> (0 :: int) < - 1"
  by (simp add: toPriority_in_range codes_distinct msgPriority_kinds) (simp add: toPriority_def)

text \<open>Beyond that range the sum wraps: the next round gets the higher priority.\<close>

lemma toPriority_wraps:
  "toPriority MsgPreprepare (Some \<lparr>Sequence = Some 6, Round = Some 922337203685477580\<rparr>)
     = Inr (- 9223372036854775801)
   \<and> toPriority MsgPreprepare
       (Some \<lparr>Sequence = Some 6, Round = Some 922337203685477581\<rparr>)
     = Inr 9223372036854775805"
  by (simp add: toPriority_def codes_distinct msgPriority_kinds Uint64_def uint64_def
        int64_def neg64_def)
section \<open>The backlog\<close>

declare drainLoop.simps [simp del]

subsection \<open>Association lists\<close>

lemma delete_absent: "map_of al k = None \<Longrightarrow> AList.delete k al = al"
  by (induction al) (auto split: if_splits)

lemma sum_delete:
  "distinct (map fst al) \<Longrightarrow> map_of al k = Some v \<Longrightarrow>
   sum_list (map (f \<circ> snd) (AList.delete k al)) + f v = sum_list (map (f \<circ> snd) al)"
  for f :: "'b \<Rightarrow> int"
proof (induction al)
  case Nil
  then show ?case by simp
next
  case (Cons a al)
  show ?case
  proof (cases "fst a = k")
    case True
    with Cons.prems have "map_of al k = None" "snd a = v"
      by (auto simp: map_of_eq_None_iff)
    then show ?thesis using True by (simp add: delete_absent)
  next
    case False
    with Cons show ?thesis by auto
  qed
qed

lemma sum_update:
  "distinct (map fst al) \<Longrightarrow>
   sum_list (map (f \<circ> snd) (AList.update k v al))
     = sum_list (map (f \<circ> snd) al) - (case map_of al k of None \<Rightarrow> 0 | Some w \<Rightarrow> f w) + f v"
  for f :: "'b \<Rightarrow> int"
  by (induction al) (auto simp: map_of_eq_None_iff split: option.splits)


lemma counts_update:
  "distinct (map fst al) \<Longrightarrow>
   sum_list (map snd (AList.update k v al)) = sum_list (map snd al) - countOf al k + v"
  for al :: "(address \<times> int) list"
  using sum_update [where f = "\<lambda>x. x" and al = al and k = k and v = v]
  by (simp add: countOf_def comp_def)

subsection \<open>The queue\<close>

lemma front_mem: "front a q \<in> set (a # q)"
  by (induction q arbitrary: a) auto

lemma front_ge_start: "snd a \<le> snd (front a q)"
proof (induction q arbitrary: a)
  case Nil
  then show ?case by simp
next
  case (Cons b q)
  have "snd b \<le> snd (front b q)" and "snd a \<le> snd (front a q)"
    by (rule Cons.IH)+
  then show ?case by simp
qed

lemma front_ge_rest: "y \<in> set q \<Longrightarrow> snd y \<le> snd (front a q)"
proof (induction q arbitrary: a)
  case Nil
  then show ?case by simp
next
  case (Cons b q)
  show ?case
  proof (cases "y = b")
    case True
    then show ?thesis
      using front_ge_start [of b q] front_ge_start [of a q] by auto
  next
    case False
    then have "y \<in> set q" using Cons.prems by simp
    then show ?thesis using Cons.IH by simp
  qed
qed

lemma front_max: "y \<in> set (a # q) \<Longrightarrow> snd y \<le> snd (front a q)"
  using front_ge_start [of a q] front_ge_rest [of y q a] by auto

lemma length_pop: "length (remove1 (front x xs) (x # xs)) = length xs"
  using front_mem [of x xs] by (simp only: length_remove1 if_True) simp

lemma insert_remove1: "x \<in> set xs \<Longrightarrow> insert x (set (remove1 x xs)) = set xs"
  by (induction xs) auto

lemma set_popOrder: "set (popOrder q) = set q"
proof (induction q rule: popOrder.induct)
  case 1
  then show ?case by simp
next
  case (2 x xs)
  have "set (popOrder (x # xs)) = insert (front x xs) (set (remove1 (front x xs) (x # xs)))"
    using 2 by (simp del: remove1.simps)
  also have "\<dots> = set (x # xs)"
    using front_mem [of x xs] by (rule insert_remove1)
  finally show ?case .
qed

lemma length_popOrder: "length (popOrder q) = length q"
  by (induction q rule: popOrder.induct) (simp_all add: length_pop del: remove1.simps)

lemma popOrder_sorted: "sorted_wrt (\<lambda>a b. snd b \<le> snd a) (popOrder q)"
proof (induction q rule: popOrder.induct)
  case 1
  then show ?case by simp
next
  case (2 x xs)
  have "snd y \<le> snd (front x xs)" if "y \<in> set (remove1 (front x xs) (x # xs))" for y
    using that front_max [of y x xs] set_remove1_subset [of "front x xs" "x # xs"] by blast
  then show ?case using 2 by (simp add: set_popOrder del: remove1.simps)
qed

lemma drainLoop_Nil: "drainLoop cb [] c = c"
  by (simp add: drainLoop.simps Empty_def)

lemma drainLoop_Cons:
  "drainLoop cb (x # xs) c =
     drainLoop cb (remove1 (front x xs) (x # xs)) (popped cb (fst (front x xs)) c)"
  by (subst drainLoop.simps) (simp add: Empty_def PopItem_def del: remove1.simps)


subsection \<open>Draining a queue\<close>

lemma engine_eq:
  "engine c' = engine c \<longleftrightarrow>
     address c' = address c \<and> state c' = state c
     \<and> current_Sequence c' = current_Sequence c \<and> current_Round c' = current_Round c
     \<and> current_DesiredRound c' = current_DesiredRound c
     \<and> backend_LastSubject c' = backend_LastSubject c \<and> valSet c' = valSet c"
  by (auto simp: engine_def)

lemma checkMessage_engine:
  assumes "engine c' = engine c"
  shows "checkMessage c' code view = checkMessage c code view"
proof -
  have "state c' = state c" "current_Sequence c' = current_Sequence c"
    "current_Round c' = current_Round c"
    "current_DesiredRound c' = current_DesiredRound c"
    "backend_LastSubject c' = backend_LastSubject c"
    using assms by (simp_all add: engine_def)
  then show ?thesis
    unfolding checkMessage_def currentView_def
    by (simp cong: option.case_cong sum.case_cong if_cong)
qed

lemma deliverable_engine: "engine c' = engine c \<Longrightarrow> deliverable c' m = deliverable c m"
  using checkMessage_engine [of c' c]
  by (auto simp add: deliverable_def engine_eq split: option.splits)

lemma replayed_engine: "engine c' = engine c \<Longrightarrow> replayed c' q = replayed c q"
  using deliverable_engine [of c' c] by (simp add: replayed_def cong: filter_cong)

lemma replay_eq:
  "replay m a c =
     (if processBacklog_view m \<noteq> None
         \<and> checkMessage c (Code m) (processBacklog_view m) = None
      then c\<lparr>started := started c @ [\<lparr>event_src = a, event_msg = m\<rparr>]\<rparr> else c)"
  by (auto simp: replay_def split: option.splits)

lemma popped_None:
  "popped None m c =
     c\<lparr>backlogCountByVal :=
         AList.update (Address m) (countOf (backlogCountByVal c) (Address m) - 1)
           (backlogCountByVal c),
       backlogTotal := backlogTotal c - 1\<rparr>"
  by (simp add: popped_def)

lemma popped_replay:
  "popped (Some replay) m c =
     c\<lparr>started := started c
          @ (if deliverable c m then [\<lparr>event_src = Address m, event_msg = m\<rparr>] else []),
       backlogCountByVal :=
         AList.update (Address m) (countOf (backlogCountByVal c) (Address m) - 1)
           (backlogCountByVal c),
       backlogTotal := backlogTotal c - 1\<rparr>"
  by (auto simp: popped_def replay_eq deliverable_def GetByAddress_def split: option.splits)

lemma popped_fields:
  assumes "cb = None \<or> cb = Some replay"
  shows "engine (popped cb m c) = engine c"
    and "backlogBySeq (popped cb m c) = backlogBySeq c"
    and "backlogTotal (popped cb m c) = backlogTotal c - 1"
    and "backlogCountByVal (popped cb m c) =
           AList.update (Address m) (countOf (backlogCountByVal c) (Address m) - 1)
             (backlogCountByVal c)"
  using assms by (auto simp: popped_None popped_replay engine_def)

lemma drainLoop_fields:
  assumes "cb = None \<or> cb = Some replay"
  shows "engine (drainLoop cb q c) = engine c
    \<and> backlogBySeq (drainLoop cb q c) = backlogBySeq c
    \<and> backlogTotal (drainLoop cb q c) = backlogTotal c - int (length q)"
proof (induction q arbitrary: c rule: popOrder.induct)
  case 1
  then show ?case by (simp add: drainLoop_Nil)
next
  case (2 x xs)
  show ?case
    by (simp add: drainLoop_Cons 2 popped_fields [OF assms] length_pop del: remove1.simps)
qed

lemma drainLoop_counts:
  assumes "cb = None \<or> cb = Some replay"
  shows "distinct (map fst (backlogCountByVal c)) \<Longrightarrow>
     distinct (map fst (backlogCountByVal (drainLoop cb q c)))
     \<and> sum_list (map snd (backlogCountByVal (drainLoop cb q c)))
         = sum_list (map snd (backlogCountByVal c)) - int (length q)"
proof (induction q arbitrary: c rule: popOrder.induct)
  case 1
  then show ?case by (simp add: drainLoop_Nil)
next
  case (2 x xs)
  let ?c = "popped cb (fst (front x xs)) c"
  have d: "distinct (map fst (backlogCountByVal ?c))"
    using 2(2) by (simp add: popped_fields [OF assms] distinct_update)
  have s: "sum_list (map snd (backlogCountByVal ?c))
      = sum_list (map snd (backlogCountByVal c)) - 1"
    using 2(2) by (simp add: popped_fields [OF assms] counts_update)
  show ?case
    using 2(1) [OF d] s by (simp add: drainLoop_Cons length_pop del: remove1.simps)
qed

lemma drainLoop_started_None: "started (drainLoop None q c) = started c"
proof (induction q arbitrary: c rule: popOrder.induct)
  case 1
  then show ?case by (simp add: drainLoop_Nil)
next
  case (2 x xs)
  show ?case by (simp add: drainLoop_Cons 2 popped_None del: remove1.simps)
qed

lemma drainLoop_started_replay:
  "started (drainLoop (Some replay) q c) = started c @ replayed c q"
proof (induction q arbitrary: c rule: popOrder.induct)
  case 1
  then show ?case by (simp add: drainLoop_Nil replayed_def)
next
  case (2 x xs)
  let ?c = "popped (Some replay) (fst (front x xs)) c"
  have e: "engine ?c = engine c" by (simp add: popped_fields)
  show ?case
    by (simp add: drainLoop_Cons 2 replayed_engine [OF e] del: remove1.simps)
      (simp add: popped_replay replayed_def del: remove1.simps)
qed


subsection \<open>Draining a sequence\<close>

lemma set_delete: "set (AList.delete k al) = {x \<in> set al. fst x \<noteq> k}"
  by (induction al) auto

lemma map_of_delete_other: "k' \<noteq> k \<Longrightarrow> map_of (AList.delete k al) k' = map_of al k'"
  by (induction al) auto

lemma drain_absent:
  "map_of (backlogBySeq c) seq = None \<Longrightarrow> drainBacklogForSeq c seq cb = c"
  by (simp add: drainBacklogForSeq_def)

lemma drain_present:
  "map_of (backlogBySeq c) seq = Some q \<Longrightarrow>
   drainBacklogForSeq c seq cb =
     (drainLoop cb q c)\<lparr>backlogBySeq := AList.delete seq (backlogBySeq (drainLoop cb q c))\<rparr>"
  by (simp add: drainBacklogForSeq_def Let_def)

lemma drain_engine:
  assumes "cb = None \<or> cb = Some replay"
  shows "engine (drainBacklogForSeq c seq cb) = engine c"
proof (cases "map_of (backlogBySeq c) seq")
  case None
  then show ?thesis by (simp add: drain_absent)
next
  case (Some q)
  then show ?thesis
    using drainLoop_fields [OF assms, of q c] by (simp add: drain_present engine_def)
qed

lemma drain_backlog:
  assumes "cb = None \<or> cb = Some replay"
  shows "backlogBySeq (drainBacklogForSeq c seq cb) = AList.delete seq (backlogBySeq c)"
proof (cases "map_of (backlogBySeq c) seq")
  case None
  then show ?thesis by (simp add: drain_absent delete_absent)
next
  case (Some q)
  then show ?thesis
    using drainLoop_fields [OF assms, of q c] by (simp add: drain_present)
qed

lemma drain_started_None: "started (drainBacklogForSeq c seq None) = started c"
  by (cases "map_of (backlogBySeq c) seq")
    (simp_all add: drain_absent drain_present drainLoop_started_None)

lemma drain_started_replay:
  "started (drainBacklogForSeq c seq (Some replay)) =
     started c @ (case map_of (backlogBySeq c) seq of None \<Rightarrow> [] | Some q \<Rightarrow> replayed c q)"
  by (cases "map_of (backlogBySeq c) seq")
    (simp_all add: drain_absent drain_present drainLoop_started_replay)

lemma drain_consistent:
  assumes cb: "cb = None \<or> cb = Some replay" and c: "consistent c"
  shows "consistent (drainBacklogForSeq c seq cb)"
proof (cases "map_of (backlogBySeq c) seq")
  case None
  then show ?thesis using c by (simp add: drain_absent)
next
  case (Some q)
  let ?d = "drainLoop cb q c"
  have f: "backlogBySeq ?d = backlogBySeq c"
    "backlogTotal ?d = backlogTotal c - int (length q)"
    using drainLoop_fields [OF cb, of q c] by simp_all
  have k: "distinct (map fst (backlogCountByVal ?d))"
    "sum_list (map snd (backlogCountByVal ?d))
       = sum_list (map snd (backlogCountByVal c)) - int (length q)"
    using drainLoop_counts [OF cb, of c q] c by (simp_all add: consistent_def)
  have s: "sum_list (map ((\<lambda>q. int (length q)) \<circ> snd) (AList.delete seq (backlogBySeq c)))
      + int (length q) = sum_list (map ((\<lambda>q. int (length q)) \<circ> snd) (backlogBySeq c))"
    using sum_delete [where f = "\<lambda>q. int (length q)" and al = "backlogBySeq c"] Some c
    by (simp add: consistent_def)
  show ?thesis
    using c f k s by (simp add: drain_present [OF Some] consistent_def distinct_delete)
qed

subsection \<open>The pruning loop and the replay loop\<close>

lemma pruneLoop_engine: "engine (pruneLoop ks c) = engine c"
  by (induction ks arbitrary: c) (simp_all add: drain_engine)

lemma pruneLoop_started: "started (pruneLoop ks c) = started c"
  by (induction ks arbitrary: c) (simp_all add: drain_started_None)

lemma pruneLoop_consistent: "consistent c \<Longrightarrow> consistent (pruneLoop ks c)"
  by (induction ks arbitrary: c) (simp_all add: drain_consistent)

lemma pruneLoop_backlog: "set (backlogBySeq (pruneLoop ks c)) \<subseteq> set (backlogBySeq c)"
proof (induction ks arbitrary: c)
  case Nil
  then show ?case by simp
next
  case (Cons k ks)
  have "set (backlogBySeq (drainBacklogForSeq c k None)) \<subseteq> set (backlogBySeq c)"
    by (auto simp add: drain_backlog set_delete)
  then show ?case using Cons [of "drainBacklogForSeq c k None"] by auto
qed

lemma processLoop_engine: "engine (processLoop ks c) = engine c"
proof (induction ks arbitrary: c)
  case Nil
  then show ?case by simp
next
  case (Cons k ks)
  show ?case by (simp add: Cons drain_engine)
qed

lemma processLoop_consistent: "consistent c \<Longrightarrow> consistent (processLoop ks c)"
  by (induction ks arbitrary: c) (simp_all add: drain_consistent)

lemma processBacklog_consistent: "consistent c \<Longrightarrow> consistent (processBacklog c)"
  by (simp add: processBacklog_def processLoop_consistent)


subsection \<open>Storing\<close>

lemma toPriority_decoded:
  "Msg msg = Encoded s r \<Longrightarrow> \<exists>p. toPriority (Code msg) (Decode msg) = Inr p"
  by (simp add: toPriority_def Decode_def)

lemma storeBacklog_view_cases:
  "storeBacklog_view msg =
     (if Code msg \<in> {MsgPreprepare, MsgPrepare, MsgCommit, MsgRoundChange} then
        (case Msg msg of Undecodable \<Rightarrow> None | Encoded s r \<Rightarrow> Some (Decode msg))
      else Some None)"
  by (auto simp: storeBacklog_view_def Decode_def split: payload.splits)

lemma storeBacklog_eq:
  "storeBacklog c msg src =
     (if Address msg = address c then Inr c
      else if Code msg \<in> {MsgPreprepare, MsgPrepare, MsgCommit, MsgRoundChange} then
        (case Msg msg of
           Undecodable \<Rightarrow> Inr c
         | Encoded s r \<Rightarrow>
             if countOf (backlogCountByVal c) (Address msg) > 1000 then Inr c
             else
               (case toPriority (Code msg) (Decode msg) of
                  Inl f \<Rightarrow> Inl f
                | Inr p \<Rightarrow>
                    if backlogTotal (parked c msg src (Uint64 (int s)) p) > 10000
                    then Inr (pruneLoop
                      (rev (tl (getSortedBacklogSeqs (parked c msg src (Uint64 (int s)) p))))
                      (parked c msg src (Uint64 (int s)) p))
                    else Inr (parked c msg src (Uint64 (int s)) p)))
      else if countOf (backlogCountByVal c) (Address msg) > 1000 then Inr c
      else Inl NilPointerDereference)"
proof (cases "Address msg = address c")
  case True
  then show ?thesis by (simp add: storeBacklog_def)
next
  case self: False
  show ?thesis
  proof (cases "Code msg \<in> {MsgPreprepare, MsgPrepare, MsgCommit, MsgRoundChange}")
    case False
    then have "storeBacklog_view msg = Some None"
      by (simp add: storeBacklog_view_cases)
    then show ?thesis
      using self False
      by (simp add: storeBacklog_def acceptMaxFutureMsgsFromOneValidator_def)
  next
    case known: True
    show ?thesis
    proof (cases "Msg msg")
      case Undecodable
      then have "storeBacklog_view msg = None"
        using known by (simp add: storeBacklog_view_cases)
      then show ?thesis
        using self known Undecodable by (simp add: storeBacklog_def)
    next
      case (Encoded s r)
      have v: "Decode msg = Some \<lparr>Sequence = Some (int s), Round = Some (int r)\<rparr>"
        using Encoded by (simp add: Decode_def)
      have sv: "storeBacklog_view msg
          = Some (Some \<lparr>Sequence = Some (int s), Round = Some (int r)\<rparr>)"
        using known Encoded v by (simp add: storeBacklog_view_cases)
      obtain p where p: "toPriority (Code msg) (Decode msg) = Inr p"
        using toPriority_decoded [OF Encoded] by blast
      have p': "toPriority (Code msg)
          (Some \<lparr>Sequence = Some (int s), Round = Some (int r)\<rparr>) = Inr p"
        using p v by simp
      have c2: "c\<lparr>backlogCountByVal :=
            AList.update src (countOf (backlogCountByVal c) src + 1) (backlogCountByVal c),
          backlogTotal := backlogTotal c + 1,
          backlogBySeq :=
            AList.update (Uint64 (int s))
              (Push (case map_of (backlogBySeq c) (Uint64 (int s)) of
                       None \<Rightarrow> New | Some q \<Rightarrow> q) msg p)
              (backlogBySeq c)\<rparr> = parked c msg src (Uint64 (int s)) p"
        unfolding parked_def Push_def New_def ..
      have t: "backlogTotal (parked c msg src (Uint64 (int s)) p) = backlogTotal c + 1"
        by (simp add: parked_def)
      show ?thesis
        using self known
        by (simp add: storeBacklog_def sv p' p Encoded Let_def c2 t
            acceptMaxFutureMsgsFromOneValidator_def acceptMaxFutureMessages_def)
    qed
  qed
qed

lemma storeBacklog_Inr:
  assumes "storeBacklog c msg src = Inr c'"
  shows "c' = c
    \<or> (\<exists>s r p. Msg msg = Encoded s r
          \<and> toPriority (Code msg) (Decode msg) = Inr p
          \<and> (c' = parked c msg src (Uint64 (int s)) p
             \<or> c' = pruneLoop
                  (rev (tl (getSortedBacklogSeqs (parked c msg src (Uint64 (int s)) p))))
                  (parked c msg src (Uint64 (int s)) p)))"
  using assms unfolding storeBacklog_eq
  by (auto split: if_splits payload.splits sum.splits)

lemma parked_consistent:
  assumes "consistent c"
  shows "consistent (parked c msg src k p)"
proof -
  have d1: "distinct (map fst (backlogBySeq c))"
    and d2: "distinct (map fst (backlogCountByVal c))"
    using assms by (simp_all add: consistent_def)
  have s1: "sum_list (map ((\<lambda>q. int (length q)) \<circ> snd)
        (AList.update k
          ((case map_of (backlogBySeq c) k of None \<Rightarrow> [] | Some q \<Rightarrow> q) @ [(msg, p)])
          (backlogBySeq c)))
      = sum_list (map ((\<lambda>q. int (length q)) \<circ> snd) (backlogBySeq c)) + 1"
    using sum_update [OF d1, where f = "\<lambda>q. int (length q)"]
    by (simp split: option.splits)
  have s2: "sum_list (map snd
        (AList.update src (countOf (backlogCountByVal c) src + 1) (backlogCountByVal c)))
      = sum_list (map snd (backlogCountByVal c)) + 1"
    using counts_update [OF d2] by simp
  show ?thesis
    using assms s1 s2 d1 d2 by (simp add: consistent_def parked_def distinct_update)
qed

lemma storeBacklog_consistent:
  "consistent c \<Longrightarrow> storeBacklog c msg src = Inr c' \<Longrightarrow> consistent c'"
  using storeBacklog_Inr [of c msg src c'] parked_consistent pruneLoop_consistent by auto

lemma reachable_consistent: "reachable c \<Longrightarrow> consistent c"
proof (induction rule: reachable.induct)
  case (start c)
  then show ?case by (simp add: consistent_def)
next
  case (store c msg src c')
  then show ?case using storeBacklog_consistent by blast
next
  case (process c)
  then show ?case by (simp add: processBacklog_consistent)
next
  case (engine c st s r d lastSubject vs)
  then show ?case by (simp add: consistent_def)
qed

subsection \<open>Replay\<close>

lemma map_of_delete: "map_of (AList.delete k al) k' = (if k' = k then None else map_of al k')"
  by (induction al) auto

lemma cur_engine:
  "engine c' = engine c \<Longrightarrow> Uint64 (fst (currentView c')) = Uint64 (fst (currentView c))"
  by (simp add: engine_eq currentView_def)

lemma processLoop_keys:
  "sorted ks \<Longrightarrow> k \<in> fst ` set (backlogBySeq (processLoop ks c)) \<Longrightarrow>
   k \<in> fst ` set (backlogBySeq c) \<and> (k \<in> set ks \<longrightarrow> Uint64 (fst (currentView c)) < k)"
proof (induction ks arbitrary: c)
  case Nil
  then show ?case by simp
next
  case (Cons a ks)
  let ?cur = "Uint64 (fst (currentView c))"
  show ?case
  proof (cases "?cur < a")
    case True
    then have "processLoop (a # ks) c = c" by simp
    moreover have "?cur < k" if "k \<in> set (a # ks)"
      using that True Cons.prems(1) by auto
    ultimately show ?thesis using Cons.prems(2) by simp
  next
    case False
    then obtain cb where cb: "cb = None \<or> cb = Some replay"
      and p: "processLoop (a # ks) c = processLoop ks (drainBacklogForSeq c a cb)"
      by (cases "a < ?cur") auto
    let ?c = "drainBacklogForSeq c a cb"
    have s: "sorted ks" using Cons.prems(1) by simp
    have k: "k \<in> fst ` set (backlogBySeq (processLoop ks ?c))"
      using Cons.prems(2) p by simp
    have ih: "k \<in> fst ` set (backlogBySeq ?c)"
      "k \<in> set ks \<longrightarrow> Uint64 (fst (currentView ?c)) < k"
      using Cons.IH [OF s k] by simp_all
    have "k \<in> fst ` set (backlogBySeq c)" "k \<noteq> a"
      using ih(1) by (auto simp: drain_backlog [OF cb] set_delete)
    then show ?thesis
      using ih(2) cur_engine [OF drain_engine [OF cb, of c a]] by auto
  qed
qed

lemma processLoop_started_absent:
  "map_of (backlogBySeq c) (Uint64 (fst (currentView c))) = None \<Longrightarrow>
   started (processLoop ks c) = started c"
proof (induction ks arbitrary: c)
  case Nil
  then show ?case by simp
next
  case (Cons a ks)
  let ?cur = "Uint64 (fst (currentView c))"
  consider "a < ?cur" | "a = ?cur" | "?cur < a" by linarith
  then show ?case
  proof cases
    case 1
    let ?c = "drainBacklogForSeq c a None"
    have "map_of (backlogBySeq ?c) (Uint64 (fst (currentView ?c))) = None"
      using Cons.prems 1 cur_engine [OF drain_engine [of None c a]]
      by (simp add: drain_backlog map_of_delete)
    then have "started (processLoop ks ?c) = started ?c" by (rule Cons.IH)
    then show ?thesis using 1 by (simp add: drain_started_None)
  next
    case 2
    then have "drainBacklogForSeq c a (Some replay) = c"
      using Cons.prems by (simp add: drain_absent)
    then show ?thesis using 2 Cons.IH [OF Cons.prems] by simp
  next
    case 3
    then show ?thesis by simp
  qed
qed

lemma processLoop_started:
  "started (processLoop ks c) = started c
   \<or> (\<exists>q. map_of (backlogBySeq c) (Uint64 (fst (currentView c))) = Some q
         \<and> started (processLoop ks c) = started c @ replayed c q)"
proof (induction ks arbitrary: c)
  case Nil
  then show ?case by simp
next
  case (Cons a ks)
  let ?cur = "Uint64 (fst (currentView c))"
  consider "a < ?cur" | "a = ?cur" | "?cur < a" by linarith
  then show ?case
  proof cases
    case 1
    let ?c = "drainBacklogForSeq c a None"
    have e: "engine ?c = engine c" by (simp add: drain_engine)
    have m: "map_of (backlogBySeq ?c) (Uint64 (fst (currentView ?c)))
        = map_of (backlogBySeq c) ?cur"
      using 1 cur_engine [OF e] by (simp add: drain_backlog map_of_delete)
    show ?thesis
      using Cons.IH [of ?c] 1 m by (simp add: drain_started_None replayed_engine [OF e])
  next
    case 2
    let ?c = "drainBacklogForSeq c a (Some replay)"
    have e: "engine ?c = engine c" by (simp add: drain_engine)
    have "map_of (backlogBySeq ?c) (Uint64 (fst (currentView ?c))) = None"
      using 2 cur_engine [OF e] by (simp add: drain_backlog map_of_delete)
    then have "started (processLoop ks ?c) = started ?c"
      by (rule processLoop_started_absent)
    then show ?thesis
      using 2 by (cases "map_of (backlogBySeq c) ?cur") (simp_all add: drain_started_replay)
  next
    case 3
    then show ?thesis by simp
  qed
qed

lemma processBacklog_keys:
  "k \<in> fst ` set (backlogBySeq (processBacklog c)) \<Longrightarrow> Uint64 (current_Sequence c) < k"
  using processLoop_keys [of "getSortedBacklogSeqs c" k c]
  by (auto simp add: processBacklog_def getSortedBacklogSeqs_def currentView_def)

lemma processBacklog_started:
  "started (processBacklog c) = started c
   \<or> (\<exists>q. map_of (backlogBySeq c) (Uint64 (current_Sequence c)) = Some q
         \<and> started (processBacklog c) = started c @ replayed c q)"
  using processLoop_started [of "getSortedBacklogSeqs c" c]
  by (simp add: processBacklog_def currentView_def)

lemma replayed_messages: "event_msg ` set (replayed c q) \<subseteq> fst ` set q"
  using set_popOrder [of q] by (force simp: replayed_def)


subsection \<open>Filing and ranking\<close>

lemma allFiled_mono:
  "set (backlogBySeq c') \<subseteq> set (backlogBySeq c) \<Longrightarrow> allFiled c \<Longrightarrow> allFiled c'"
  by (auto simp: allFiled_def)

lemma set_update: "set (AList.update k v al) \<subseteq> insert (k, v) (set al)"
  by (induction al) auto

lemma parked_allFiled:
  assumes "allFiled c" and "Msg msg = Encoded s r"
    and "toPriority (Code msg) (Decode msg) = Inr p"
  shows "allFiled (parked c msg src (Uint64 (int s)) p)"
proof -
  let ?k = "Uint64 (int s)"
  let ?q = "case map_of (backlogBySeq c) ?k of None \<Rightarrow> [] | Some q \<Rightarrow> q"
  have "filed ?k ?q"
  proof (cases "map_of (backlogBySeq c) ?k")
    case None
    then show ?thesis by (simp add: filed_def)
  next
    case (Some q)
    then have "(?k, q) \<in> set (backlogBySeq c)" by (rule map_of_SomeD)
    then have "filed ?k q" using assms(1) by (auto simp: allFiled_def)
    then show ?thesis using Some by simp
  qed
  then have "filed ?k (?q @ [(msg, p)])"
    using assms(2,3) by (auto simp: filed_def)
  then show ?thesis
    using assms(1) set_update [of ?k "?q @ [(msg, p)]" "backlogBySeq c"]
    by (auto simp: allFiled_def parked_def)
qed

lemma drain_allFiled:
  "cb = None \<or> cb = Some replay \<Longrightarrow> allFiled c \<Longrightarrow> allFiled (drainBacklogForSeq c seq cb)"
  by (rule allFiled_mono [of _ c]) (auto simp: drain_backlog set_delete)

lemma processLoop_allFiled: "allFiled c \<Longrightarrow> allFiled (processLoop ks c)"
  by (induction ks arbitrary: c) (simp_all add: drain_allFiled)

lemma reachable_allFiled: "reachable c \<Longrightarrow> allFiled c"
proof (induction rule: reachable.induct)
  case (start c)
  then show ?case by (simp add: allFiled_def)
next
  case (store c msg src c')
  then show ?case
    using storeBacklog_Inr [of c msg src c'] parked_allFiled
      allFiled_mono [OF pruneLoop_backlog]
    by blast
next
  case (process c)
  then show ?case by (simp add: processBacklog_def processLoop_allFiled)
next
  case (engine c st s r d lastSubject vs)
  then show ?case by (simp add: allFiled_def)
qed

lemma replayed_sorted:
  assumes "filed k q"
  shows "sorted_wrt precedes (replayed c q)"
proof -
  let ?ev = "\<lambda>m. \<lparr>event_src = Address m, event_msg = m\<rparr>"
  have r: "replayed c q = map (?ev \<circ> fst) (filter (deliverable c \<circ> fst) (popOrder q))"
    by (simp add: replayed_def filter_map)
  have "sorted_wrt (\<lambda>a b. snd b \<le> snd a) (filter (deliverable c \<circ> fst) (popOrder q))"
    using popOrder_sorted by (rule sorted_wrt_filter)
  moreover have "precedes ((?ev \<circ> fst) a) ((?ev \<circ> fst) b)"
    if "a \<in> set (filter (deliverable c \<circ> fst) (popOrder q))"
      and "b \<in> set (filter (deliverable c \<circ> fst) (popOrder q))" and "snd b \<le> snd a" for a b
  proof -
    have "a \<in> set q" "b \<in> set q" using that(1,2) by (simp_all add: set_popOrder)
    then have "toPriority (Code (fst a)) (Decode (fst a)) = Inr (snd a)"
      "toPriority (Code (fst b)) (Decode (fst b)) = Inr (snd b)"
      using assms by (auto simp: filed_def)
    then show ?thesis using that(3) by (simp add: precedes_def)
  qed
  ultimately have "sorted_wrt (\<lambda>a b. precedes ((?ev \<circ> fst) a) ((?ev \<circ> fst) b))
      (filter (deliverable c \<circ> fst) (popOrder q))"
    by (rule sorted_wrt_mono_rel [rotated])
  then show ?thesis by (simp add: r sorted_wrt_map)
qed

subsection \<open>One sender\<close>

lemma prepare_priority:
  "toPriority (Code (message MsgPrepare 6 0 1)) (Decode (message MsgPrepare 6 0 1))
     = Inr (- 3)"
  by (simp add: message_def Decode_def toPriority_in_range codes_distinct msgPriority_kinds)

lemma Uint64_small: "0 \<le> x \<Longrightarrow> x < 2 ^ 64 \<Longrightarrow> Uint64 x = nat x"
  by (simp add: Uint64_def)

lemma storeBacklog_parks:
  assumes "Address msg \<noteq> address c"
    and "Code msg \<in> {MsgPreprepare, MsgPrepare, MsgCommit, MsgRoundChange}"
    and "Msg msg = Encoded s r"
    and "countOf (backlogCountByVal c) (Address msg) \<le> 1000"
    and "toPriority (Code msg) (Decode msg) = Inr p"
    and "backlogTotal c < 10000"
  shows "storeBacklog c msg src = Inr (parked c msg src (Uint64 (int s)) p)"
proof -
  have "backlogTotal (parked c msg src (Uint64 (int s)) p) = backlogTotal c + 1"
    by (simp add: parked_def)
  then show ?thesis
    using assms by (simp add: storeBacklog_eq)
qed

lemma store_first:
  "storeBacklog (fixture 5 0 0 StatePreprepared (Inr (4, 0))) (message MsgPrepare 6 0 1) 1
     = Inr (filled 1)"
proof -
  let ?c = "fixture 5 0 0 StatePreprepared (Inr (4, 0))"
  have "storeBacklog ?c (message MsgPrepare 6 0 1) 1
      = Inr (parked ?c (message MsgPrepare 6 0 1) 1 (Uint64 (int 6)) (- 3))"
    by (rule storeBacklog_parks [where r = 0, OF _ _ _ _ prepare_priority])
      (simp_all add: message_def fixture_def countOf_def)
  moreover have "parked ?c (message MsgPrepare 6 0 1) 1 (Uint64 (int 6)) (- 3) = filled 1"
    by (simp add: filled_def parked_def fixture_def countOf_def Uint64_small)
  ultimately show ?thesis by (simp only:)
qed

lemma store_next:
  assumes "1 \<le> n" and "n \<le> 1000"
  shows "storeBacklog (filled n) (message MsgPrepare 6 0 1) 1 = Inr (filled (Suc n))"
proof -
  have "storeBacklog (filled n) (message MsgPrepare 6 0 1) 1
      = Inr (parked (filled n) (message MsgPrepare 6 0 1) 1 (Uint64 (int 6)) (- 3))"
    using assms
    by (intro storeBacklog_parks [where r = 0, OF _ _ _ _ prepare_priority])
      (simp_all add: message_def filled_def fixture_def countOf_def)
  moreover have "parked (filled n) (message MsgPrepare 6 0 1) 1 (Uint64 (int 6)) (- 3)
      = filled (Suc n)"
    by (simp add: filled_def parked_def fixture_def countOf_def Uint64_small
        replicate_append_same)
  ultimately show ?thesis by (simp only:)
qed

lemma store_over:
  "storeBacklog (filled 1001) \<lparr>Code = code, Msg = Encoded 6 0, Address = 1\<rparr> 1
     = Inr (filled 1001)"
  by (simp add: storeBacklog_eq) (simp add: filled_def fixture_def countOf_def)

lemma storeAll_filled:
  "1 \<le> k \<Longrightarrow> k + n \<le> 1001 \<Longrightarrow>
   storeAll (filled k) (replicate n (message MsgPrepare 6 0 1)) = Inr (filled (k + n))"
proof (induction n arbitrary: k)
  case 0
  then show ?case by simp
next
  case (Suc n)
  have a: "Address (message MsgPrepare 6 0 1) = 1" by (simp add: message_def)
  have "storeBacklog (filled k) (message MsgPrepare 6 0 1) 1 = Inr (filled (Suc k))"
    using Suc.prems by (intro store_next) simp_all
  then have "storeAll (filled k) (replicate (Suc n) (message MsgPrepare 6 0 1))
      = storeAll (filled (Suc k)) (replicate n (message MsgPrepare 6 0 1))"
    by (simp only: replicate_Suc storeAll.simps a sum.case)
  also have "\<dots> = Inr (filled (Suc k + n))"
    using Suc.prems by (intro Suc.IH) simp_all
  finally show ?case by simp
qed

lemma storeAll_1001:
  "storeAll (fixture 5 0 0 StatePreprepared (Inr (4, 0)))
     (replicate 1001 (message MsgPrepare 6 0 1)) = Inr (filled 1001)"
proof -
  have a: "Address (message MsgPrepare 6 0 1) = 1" by (simp add: message_def)
  have "replicate 1001 (message MsgPrepare 6 0 1)
      = message MsgPrepare 6 0 1 # replicate 1000 (message MsgPrepare 6 0 1)"
    using replicate_Suc [of 1000 "message MsgPrepare 6 0 1"] by simp
  then have "storeAll (fixture 5 0 0 StatePreprepared (Inr (4, 0)))
      (replicate 1001 (message MsgPrepare 6 0 1))
      = storeAll (filled 1) (replicate 1000 (message MsgPrepare 6 0 1))"
    by (simp only: storeAll.simps a store_first sum.case)
  also have "\<dots> = Inr (filled (1 + 1000))"
    by (intro storeAll_filled) simp_all
  finally show ?thesis by simp
qed

text \<open>
  C1. The claim bounds the counter of a sender by 1000; the guard of \<^verbatim>\<open>storeBacklog\<close>
  drops a message only when the counter is already above 1000, so the message that
  finds the counter at 1000 is stored. After 1001 messages from the validator 1 are
  stored into an empty backlog, its counter is 1001, above
  \<^verbatim>\<open>acceptMaxFutureMsgsFromOneValidator\<close>, and the queue holds 1001 entries.
\<close>

theorem storeBacklog_sender_cap_exceeded:
  "storeAll (fixture 5 0 0 StatePreprepared (Inr (4, 0)))
     (replicate 1001 (message MsgPrepare 6 0 1)) = Inr (filled 1001)
   \<and> countOf (backlogCountByVal (filled 1001)) 1 = 1001
   \<and> map_of (backlogBySeq (filled 1001)) 6
       = Some (replicate 1001 (message MsgPrepare 6 0 1, - 3))
   \<and> acceptMaxFutureMsgsFromOneValidator < countOf (backlogCountByVal (filled 1001)) 1"
  using storeAll_1001
  by (simp add: filled_def countOf_def acceptMaxFutureMsgsFromOneValidator_def)

text \<open>
  C10, as the code has it. \<^verbatim>\<open>storeBacklog\<close> dereferences a nil view exactly when the
  code of the message is none of the four kinds, the sender is not the node itself and
  the counter of the sender is at most 1000. For the four kinds it always returns
  (early, or after pushing with the decoded view); for any other code it returns only
  when the sender is the node itself or over its cap.
\<close>

theorem storeBacklog_nil_dereference:
  "(storeBacklog c msg src = Inl NilPointerDereference
    \<longleftrightarrow> Code msg \<notin> {MsgPreprepare, MsgPrepare, MsgCommit, MsgRoundChange}
        \<and> Address msg \<noteq> address c
        \<and> countOf (backlogCountByVal c) (Address msg) \<le> acceptMaxFutureMsgsFromOneValidator)
   \<and> (Code msg \<in> {MsgPreprepare, MsgPrepare, MsgCommit, MsgRoundChange} \<longrightarrow>
        (\<exists>c'. storeBacklog c msg src = Inr c'))"
proof -
  have iff: "storeBacklog c msg src = Inl NilPointerDereference
    \<longleftrightarrow> Code msg \<notin> {MsgPreprepare, MsgPrepare, MsgCommit, MsgRoundChange}
        \<and> Address msg \<noteq> address c
        \<and> countOf (backlogCountByVal c) (Address msg) \<le> acceptMaxFutureMsgsFromOneValidator"
  proof (cases "Msg msg")
    case Undecodable
    then show ?thesis
      by (auto simp add: storeBacklog_eq acceptMaxFutureMsgsFromOneValidator_def)
  next
    case (Encoded s r)
    obtain p where "toPriority (Code msg) (Decode msg) = Inr p"
      using toPriority_decoded [OF Encoded] by blast
    then show ?thesis
      using Encoded
      by (auto simp add: storeBacklog_eq acceptMaxFutureMsgsFromOneValidator_def
          split: if_splits)
  qed
  have "\<exists>c'. storeBacklog c msg src = Inr c'"
    if "Code msg \<in> {MsgPreprepare, MsgPrepare, MsgCommit, MsgRoundChange}"
  proof (cases "storeBacklog c msg src")
    case (Inl f)
    then have "storeBacklog c msg src = Inl NilPointerDereference" by (cases f) simp
    then show ?thesis using iff that by blast
  next
    case (Inr c')
    then show ?thesis by blast
  qed
  then show ?thesis using iff by blast
qed

theorem storeBacklog_nil_dereference_witness:
  "storeBacklog (fixture 5 0 0 StatePreprepared (Inr (4, 0)))
      \<lparr>Code = 4, Msg = Encoded 6 0, Address = 1\<rparr> 1 = Inl NilPointerDereference
   \<and> storeBacklog (fixture 5 0 0 StatePreprepared (Inr (4, 0))) (message MsgPrepare 6 0 1) 1
      = Inr (filled 1)"
proof -
  let ?c = "fixture 5 0 0 StatePreprepared (Inr (4, 0))"
  have "Code \<lparr>Code = 4, Msg = Encoded 6 0, Address = 1\<rparr>
      \<notin> {MsgPreprepare, MsgPrepare, MsgCommit, MsgRoundChange}"
    "Address \<lparr>Code = 4, Msg = Encoded 6 0, Address = 1\<rparr> \<noteq> address ?c"
    "countOf (backlogCountByVal ?c) (Address \<lparr>Code = 4, Msg = Encoded 6 0, Address = 1\<rparr>)
      \<le> acceptMaxFutureMsgsFromOneValidator"
    by (simp_all add: fixture_def countOf_def acceptMaxFutureMsgsFromOneValidator_def
        MsgPreprepare_def MsgPrepare_def MsgCommit_def MsgRoundChange_def)
  then have "storeBacklog ?c \<lparr>Code = 4, Msg = Encoded 6 0, Address = 1\<rparr> 1
      = Inl NilPointerDereference"
    using storeBacklog_nil_dereference [of ?c "\<lparr>Code = 4, Msg = Encoded 6 0, Address = 1\<rparr>" 1] by blast
  then show ?thesis using store_first by (simp only: simp_thms)
qed

text \<open>
  C10 as stated fails: after 1001 messages from the validator 1, a message from that
  validator with the code 4, none of the four kinds, passes the self-check, and
  \<^verbatim>\<open>storeBacklog\<close> returns at the cap check with the backlog unchanged; no view is
  dereferenced.
\<close>

theorem storeBacklog_nil_dereference_counterexample:
  "storeAll (fixture 5 0 0 StatePreprepared (Inr (4, 0)))
     (replicate 1001 (message MsgPrepare 6 0 1)) = Inr (filled 1001)
   \<and> 4 \<notin> {MsgPreprepare, MsgPrepare, MsgCommit, MsgRoundChange}
   \<and> Address \<lparr>Code = 4, Msg = Encoded 6 0, Address = 1\<rparr> \<noteq> address (filled 1001)
   \<and> storeBacklog (filled 1001) \<lparr>Code = 4, Msg = Encoded 6 0, Address = 1\<rparr> 1
       = Inr (filled 1001)"
  using storeAll_1001 store_over [of 4]
  by (simp add: filled_def fixture_def
      MsgPreprepare_def MsgPrepare_def MsgCommit_def MsgRoundChange_def)

subsection \<open>The scenarios, evaluated\<close>

lemma storeAll_reachable: "reachable c \<Longrightarrow> storeAll c ms = Inr c' \<Longrightarrow> reachable c'"
proof (induction ms arbitrary: c)
  case Nil
  then show ?case by simp
next
  case (Cons m ms)
  then show ?case
    by (auto split: sum.splits intro: reachable.store)
qed

lemma fixture_reachable: "reachable (fixture s r d st lastSubject)"
  by (rule reachable.start) (simp_all add: fixture_def)

lemmas eval_defs = storeBacklog_def storeBacklog_view_def Decode_def toPriority_def
  msgPriority_def Uint64_def uint64_def int64_def neg64_def countOf_def New_def Push_def
  acceptMaxFutureMsgsFromOneValidator_def acceptMaxFutureMessages_def
  MsgPreprepare_def MsgPrepare_def MsgCommit_def MsgRoundChange_def
  message_def fixture_def Let_def

lemma arrivals_stored:
  "storeAll (fixture 5 0 0 StatePreprepared (Inr (4, 0))) arrivals = Inr afterArrivals"
  by (simp add: arrivals_def afterArrivals_def eval_defs)


lemma arrivals_replayed:
  "started (processBacklog (afterArrivals\<lparr>current_Sequence := 6, current_Round := 0\<rparr>))
     = [\<lparr>event_src = 1, event_msg = message MsgRoundChange 6 0 1\<rparr>,
        \<lparr>event_src = 2, event_msg = message MsgPreprepare 6 0 2\<rparr>,
        \<lparr>event_src = 3, event_msg = message MsgCommit 6 0 3\<rparr>,
        \<lparr>event_src = 1, event_msg = message MsgPrepare 6 0 1\<rparr>]"
  by (simp add: afterArrivals_def processBacklog_def getSortedBacklogSeqs_def
      drainBacklogForSeq_def drainLoop_Cons drainLoop_Nil popped_def replay_def
      processBacklog_view_def checkMessage_wf GetByAddress_def currentView_def
      Cmp_def bigCmp_def eval_defs)


lemma stale_stored:
  "storeAll (fixture 2 0 0 StatePreprepared (Inr (1, 0))) stale = Inr afterStale"
  by (simp add: stale_def afterStale_def eval_defs)

lemma stale_pruned:
  "backlogBySeq (processBacklog (afterStale\<lparr>current_Sequence := 5, current_Round := 0\<rparr>)) = []
   \<and> started (processBacklog (afterStale\<lparr>current_Sequence := 5, current_Round := 0\<rparr>)) = []"
  by (simp add: afterStale_def processBacklog_def getSortedBacklogSeqs_def
      drainBacklogForSeq_def drainLoop_Cons drainLoop_Nil popped_def currentView_def
      eval_defs)

lemma arrivals_kept:
  "backlogBySeq (processBacklog afterArrivals) = backlogBySeq afterArrivals"
  by (simp add: afterArrivals_def processBacklog_def getSortedBacklogSeqs_def
      currentView_def eval_defs)

lemma view_change:
  "c\<lparr>current_Sequence := s, current_Round := r\<rparr>
     = c\<lparr>state := state c, current_Sequence := s, current_Round := r,
         current_DesiredRound := current_DesiredRound c,
         backend_LastSubject := backend_LastSubject c, valSet := valSet c\<rparr>"
  by simp

lemma view_change_reachable:
  "reachable c \<Longrightarrow> reachable (c\<lparr>current_Sequence := s, current_Round := r\<rparr>)"
  by (subst view_change) (rule reachable.engine)

lemma afterArrivals_reachable: "reachable afterArrivals"
  using storeAll_reachable [OF fixture_reachable arrivals_stored] .

lemma afterStale_reachable: "reachable afterStale"
  using storeAll_reachable [OF fixture_reachable stale_stored] .

subsection \<open>Counter consistency\<close>

text \<open>
  C9. In every state that the public operations reach from an empty backlog, by calls of
  \<^verbatim>\<open>storeBacklog\<close> that return (with the pruning they trigger), calls of
  \<^verbatim>\<open>processBacklog\<close> and moves of the engine, the total counter equals the sum of the
  counters of the senders, which equals the sum of the sizes of the queues; the keys of
  both maps are distinct, so each sum counts every sender and every sequence once.
\<close>

theorem backlog_counters_consistent:
  "reachable c \<Longrightarrow>
   backlogTotal c = sum_list (map snd (backlogCountByVal c))
   \<and> sum_list (map snd (backlogCountByVal c))
       = sum_list (map (\<lambda>(s, q). int (length q)) (backlogBySeq c))
   \<and> distinct (map fst (backlogCountByVal c))
   \<and> distinct (map fst (backlogBySeq c))"
  using reachable_consistent [of c] by (simp add: consistent_def comp_def case_prod_unfold)

theorem backlog_counters_consistent_witness:
  "reachable afterArrivals
   \<and> backlogTotal afterArrivals = 4
   \<and> sum_list (map snd (backlogCountByVal afterArrivals)) = 4
   \<and> sum_list (map (\<lambda>(s, q). int (length q)) (backlogBySeq afterArrivals)) = 4"
  using backlog_counters_consistent [OF afterArrivals_reachable] afterArrivals_reachable
  by (simp add: afterArrivals_def)

subsection \<open>Replay\<close>

text \<open>
  C8. After \<^verbatim>\<open>processBacklog\<close> every key left in the backlog is above the 64-bit
  value of the current sequence, so no queue of a past sequence remains (for a current
  sequence within 64 bits: no key \<open>s\<close> with \<open>s < currentView.sequence\<close>); and every
  send that the call starts carries a message taken from the queue filed under the
  current sequence, which in a reachable state decodes to a view of that sequence: no
  message of a past sequence is posted, in whatever order the sends run.
\<close>

theorem processBacklog_prunes_past:
  "(\<forall>k \<in> fst ` set (backlogBySeq (processBacklog c)). Uint64 (current_Sequence c) < k)
   \<and> (0 \<le> current_Sequence c \<and> current_Sequence c < 2 ^ 64 \<longrightarrow>
        (\<forall>k \<in> fst ` set (backlogBySeq (processBacklog c)). current_Sequence c < int k))
   \<and> (\<exists>new. started (processBacklog c) = started c @ new
        \<and> (\<forall>e \<in> set new. \<exists>q.
              map_of (backlogBySeq c) (Uint64 (current_Sequence c)) = Some q
              \<and> event_msg e \<in> fst ` set q)
        \<and> (reachable c \<longrightarrow>
             (\<forall>e \<in> set new. \<exists>s r.
                Msg (event_msg e) = Encoded s r
                \<and> Uint64 (int s) = Uint64 (current_Sequence c))))"
proof (intro conjI)
  show keys: "\<forall>k \<in> fst ` set (backlogBySeq (processBacklog c)). Uint64 (current_Sequence c) < k"
    using processBacklog_keys by blast
  show "0 \<le> current_Sequence c \<and> current_Sequence c < 2 ^ 64 \<longrightarrow>
      (\<forall>k \<in> fst ` set (backlogBySeq (processBacklog c)). current_Sequence c < int k)"
  proof (intro impI ballI)
    fix k
    assume r: "0 \<le> current_Sequence c \<and> current_Sequence c < 2 ^ 64"
      and k: "k \<in> fst ` set (backlogBySeq (processBacklog c))"
    have "Uint64 (current_Sequence c) < k" using keys k by blast
    then have "nat (current_Sequence c) < k" using r by (simp add: Uint64_small)
    then show "current_Sequence c < int k" by linarith
  qed
  let ?cur = "Uint64 (current_Sequence c)"
  show "\<exists>new. started (processBacklog c) = started c @ new
      \<and> (\<forall>e \<in> set new. \<exists>q. map_of (backlogBySeq c) ?cur = Some q
            \<and> event_msg e \<in> fst ` set q)
      \<and> (reachable c \<longrightarrow>
           (\<forall>e \<in> set new. \<exists>s r. Msg (event_msg e) = Encoded s r \<and> Uint64 (int s) = ?cur))"
    using processBacklog_started [of c]
  proof
    assume "started (processBacklog c) = started c"
    then show ?thesis by simp
  next
    assume "\<exists>q. map_of (backlogBySeq c) ?cur = Some q
        \<and> started (processBacklog c) = started c @ replayed c q"
    then obtain q where q: "map_of (backlogBySeq c) ?cur = Some q"
      and e: "started (processBacklog c) = started c @ replayed c q"
      by blast
    have m: "event_msg e \<in> fst ` set q" if "e \<in> set (replayed c q)" for e
      using that replayed_messages [of c q] by blast
    have "\<exists>s r. Msg (event_msg e) = Encoded s r \<and> Uint64 (int s) = ?cur"
      if "reachable c" and "e \<in> set (replayed c q)" for e
    proof -
      have "(?cur, q) \<in> set (backlogBySeq c)" using q by (rule map_of_SomeD)
      then have "filed ?cur q"
        using reachable_allFiled [OF that(1)] by (auto simp: allFiled_def)
      then show ?thesis using m [OF that(2)] by (fastforce simp: filed_def)
    qed
    then show ?thesis using q e m by blast
  qed
qed

text \<open>The fifth scenario of the specification: entries at the sequences 3 and 4 only,
  and the current view moves to (5, 0); and the backlog of the third scenario, replayed
  while the current sequence is still 5, which keeps its queue of sequence 6.\<close>

theorem processBacklog_prunes_past_witness:
  "reachable (afterStale\<lparr>current_Sequence := 5, current_Round := 0\<rparr>)
   \<and> fst ` set (backlogBySeq afterStale) = {3, 4}
   \<and> backlogBySeq (processBacklog (afterStale\<lparr>current_Sequence := 5, current_Round := 0\<rparr>)) = []
   \<and> started (processBacklog (afterStale\<lparr>current_Sequence := 5, current_Round := 0\<rparr>)) = []
   \<and> reachable afterArrivals
   \<and> fst ` set (backlogBySeq (processBacklog afterArrivals)) = {6}
   \<and> current_Sequence afterArrivals < int 6"
proof -
  let ?c = "afterStale\<lparr>current_Sequence := 5, current_Round := 0\<rparr>"
  have r: "reachable ?c"
    by (rule view_change_reachable [OF afterStale_reachable])
  have k: "fst ` set (backlogBySeq afterStale) = {3, 4}"
    by (simp add: afterStale_def)
  have k6: "fst ` set (backlogBySeq (processBacklog afterArrivals)) = {6}"
    by (simp add: arrivals_kept) (simp add: afterArrivals_def)
  have cur: "current_Sequence afterArrivals = 5"
    by (simp add: afterArrivals_def fixture_def)
  have "0 \<le> current_Sequence afterArrivals \<and> current_Sequence afterArrivals < 2 ^ 64
      \<longrightarrow> (\<forall>k \<in> fst ` set (backlogBySeq (processBacklog afterArrivals)).
            current_Sequence afterArrivals < int k)"
    using processBacklog_prunes_past [of afterArrivals] by blast
  then have "current_Sequence afterArrivals < int 6"
    using k6 by (simp add: cur)
  moreover have "\<forall>k \<in> fst ` set (backlogBySeq (processBacklog ?c)).
      Uint64 (current_Sequence ?c) < k"
    using processBacklog_prunes_past [of ?c] by blast
  ultimately show ?thesis
    using r k k6 stale_pruned afterArrivals_reachable by (simp only: simp_thms)
qed


subsection \<open>The order of the replay\<close>

lemma sendEvents_mset: "sendEvents gs bus \<Longrightarrow> mset bus = mset gs"
  by (induction rule: sendEvents.induct) simp_all

lemma mset_sendEvents: "mset bus = mset gs \<Longrightarrow> sendEvents gs bus"
proof (induction bus arbitrary: gs)
  case Nil
  then show ?case by (simp add: sendEvents.idle)
next
  case (Cons e bus)
  have "e \<in># mset gs" using Cons.prems [symmetric] by simp
  then have e: "e \<in> set gs" by simp
  have "mset bus = mset (remove1 e gs)"
    using Cons.prems [symmetric] by simp
  then have "sendEvents (remove1 e gs) bus" by (rule Cons.IH)
  with e show ?case by (rule sendEvents.post)
qed

lemma sendEvents_iff: "sendEvents gs bus \<longleftrightarrow> mset bus = mset gs"
  using sendEvents_mset mset_sendEvents by blast

text \<open>
  C3, as the code has it. The four messages of the scenario, stored in the order Prepare,
  Preprepare, Commit, RoundChange at sequence 5, have their sends started by
  \<^verbatim>\<open>processBacklog\<close> at the view (6, 0) in the order RoundChange, Preprepare, Commit,
  Prepare. In general, in a reachable state, the sends that one call of
  \<^verbatim>\<open>processBacklog\<close> starts come in the priority order of \<^verbatim>\<open>toPriority\<close>: each has a
  priority at least as high as all that follow it. Every send runs in a goroutine of
  its own, so the bus receives the events in some permutation of that order, and every
  permutation is possible.
\<close>

theorem processBacklog_priority_order:
  "storeAll (fixture 5 0 0 StatePreprepared (Inr (4, 0))) arrivals = Inr afterArrivals
   \<and> started (processBacklog (afterArrivals\<lparr>current_Sequence := 6, current_Round := 0\<rparr>))
       = [\<lparr>event_src = 1, event_msg = message MsgRoundChange 6 0 1\<rparr>,
          \<lparr>event_src = 2, event_msg = message MsgPreprepare 6 0 2\<rparr>,
          \<lparr>event_src = 3, event_msg = message MsgCommit 6 0 3\<rparr>,
          \<lparr>event_src = 1, event_msg = message MsgPrepare 6 0 1\<rparr>]
   \<and> (reachable c \<longrightarrow>
        (\<exists>new. started (processBacklog c) = started c @ new \<and> sorted_wrt precedes new))
   \<and> (sendEvents gs bus \<longleftrightarrow> mset bus = mset gs)"
proof (intro conjI impI)
  show "storeAll (fixture 5 0 0 StatePreprepared (Inr (4, 0))) arrivals = Inr afterArrivals"
    by (rule arrivals_stored)
  show "started (processBacklog (afterArrivals\<lparr>current_Sequence := 6, current_Round := 0\<rparr>))
       = [\<lparr>event_src = 1, event_msg = message MsgRoundChange 6 0 1\<rparr>,
          \<lparr>event_src = 2, event_msg = message MsgPreprepare 6 0 2\<rparr>,
          \<lparr>event_src = 3, event_msg = message MsgCommit 6 0 3\<rparr>,
          \<lparr>event_src = 1, event_msg = message MsgPrepare 6 0 1\<rparr>]"
    by (rule arrivals_replayed)
  show "sendEvents gs bus \<longleftrightarrow> mset bus = mset gs"
    by (rule sendEvents_iff)
  assume r: "reachable c"
  let ?cur = "Uint64 (current_Sequence c)"
  from processBacklog_started [of c]
  show "\<exists>new. started (processBacklog c) = started c @ new \<and> sorted_wrt precedes new"
  proof
    assume "started (processBacklog c) = started c"
    then show ?thesis by simp
  next
    assume "\<exists>q. map_of (backlogBySeq c) ?cur = Some q
        \<and> started (processBacklog c) = started c @ replayed c q"
    then obtain q where q: "map_of (backlogBySeq c) ?cur = Some q"
      and e: "started (processBacklog c) = started c @ replayed c q"
      by blast
    have "(?cur, q) \<in> set (backlogBySeq c)" using q by (rule map_of_SomeD)
    then have "filed ?cur q"
      using reachable_allFiled [OF r] by (auto simp: allFiled_def)
    then show ?thesis using e replayed_sorted by blast
  qed
qed

text \<open>The scenario: the sends are started in priority order, and one of the orders in
  which the bus can receive the events is Commit, Prepare, RoundChange, Preprepare.\<close>

theorem processBacklog_priority_order_witness:
  "reachable (afterArrivals\<lparr>current_Sequence := 6, current_Round := 0\<rparr>)
   \<and> sorted_wrt precedes
       [\<lparr>event_src = 1, event_msg = message MsgRoundChange 6 0 1\<rparr>,
          \<lparr>event_src = 2, event_msg = message MsgPreprepare 6 0 2\<rparr>,
          \<lparr>event_src = 3, event_msg = message MsgCommit 6 0 3\<rparr>,
          \<lparr>event_src = 1, event_msg = message MsgPrepare 6 0 1\<rparr>]
   \<and> sendEvents
       [\<lparr>event_src = 1, event_msg = message MsgRoundChange 6 0 1\<rparr>,
          \<lparr>event_src = 2, event_msg = message MsgPreprepare 6 0 2\<rparr>,
          \<lparr>event_src = 3, event_msg = message MsgCommit 6 0 3\<rparr>,
          \<lparr>event_src = 1, event_msg = message MsgPrepare 6 0 1\<rparr>]
       [\<lparr>event_src = 3, event_msg = message MsgCommit 6 0 3\<rparr>,
        \<lparr>event_src = 1, event_msg = message MsgPrepare 6 0 1\<rparr>,
        \<lparr>event_src = 1, event_msg = message MsgRoundChange 6 0 1\<rparr>,
        \<lparr>event_src = 2, event_msg = message MsgPreprepare 6 0 2\<rparr>]"
proof -
  let ?c = "afterArrivals\<lparr>current_Sequence := 6, current_Round := 0\<rparr>"
  let ?gs = "[\<lparr>event_src = 1, event_msg = message MsgRoundChange 6 0 1\<rparr>,
          \<lparr>event_src = 2, event_msg = message MsgPreprepare 6 0 2\<rparr>,
          \<lparr>event_src = 3, event_msg = message MsgCommit 6 0 3\<rparr>,
          \<lparr>event_src = 1, event_msg = message MsgPrepare 6 0 1\<rparr>]"
  let ?bus = "[\<lparr>event_src = 3, event_msg = message MsgCommit 6 0 3\<rparr>,
        \<lparr>event_src = 1, event_msg = message MsgPrepare 6 0 1\<rparr>,
        \<lparr>event_src = 1, event_msg = message MsgRoundChange 6 0 1\<rparr>,
        \<lparr>event_src = 2, event_msg = message MsgPreprepare 6 0 2\<rparr>]"
  have r: "reachable ?c"
    by (rule view_change_reachable [OF afterArrivals_reachable])
  obtain new where n: "started (processBacklog ?c) = started ?c @ new"
    and s: "sorted_wrt precedes new"
    using processBacklog_priority_order [of ?c] r by blast
  have "started ?c = []" by (simp add: afterArrivals_def fixture_def)
  then have "new = started (processBacklog ?c)" using n by simp
  then have o: "sorted_wrt precedes ?gs" using s by (simp only: arrivals_replayed)
  have "mset ?bus = mset ?gs" by simp
  then have "sendEvents ?gs ?bus"
    using processBacklog_priority_order [of ?c ?gs ?bus] by blast
  then show ?thesis using r o by (simp only: simp_thms)
qed

text \<open>
  C3 as stated fails: the sends of the scenario are started in the order RoundChange,
  Preprepare, Commit, Prepare, but each is a goroutine of its own, and the goroutine
  started last can run first: the bus then receives Prepare, RoundChange, Preprepare,
  Commit, which is not the priority order.
\<close>

theorem processBacklog_delivery_order_counterexample:
  "started (processBacklog (afterArrivals\<lparr>current_Sequence := 6, current_Round := 0\<rparr>))
     = [\<lparr>event_src = 1, event_msg = message MsgRoundChange 6 0 1\<rparr>,
        \<lparr>event_src = 2, event_msg = message MsgPreprepare 6 0 2\<rparr>,
        \<lparr>event_src = 3, event_msg = message MsgCommit 6 0 3\<rparr>,
        \<lparr>event_src = 1, event_msg = message MsgPrepare 6 0 1\<rparr>]
   \<and> sendEvents
       [\<lparr>event_src = 1, event_msg = message MsgRoundChange 6 0 1\<rparr>,
        \<lparr>event_src = 2, event_msg = message MsgPreprepare 6 0 2\<rparr>,
        \<lparr>event_src = 3, event_msg = message MsgCommit 6 0 3\<rparr>,
        \<lparr>event_src = 1, event_msg = message MsgPrepare 6 0 1\<rparr>]
       [\<lparr>event_src = 1, event_msg = message MsgPrepare 6 0 1\<rparr>,
        \<lparr>event_src = 1, event_msg = message MsgRoundChange 6 0 1\<rparr>,
        \<lparr>event_src = 2, event_msg = message MsgPreprepare 6 0 2\<rparr>,
        \<lparr>event_src = 3, event_msg = message MsgCommit 6 0 3\<rparr>]
   \<and> [\<lparr>event_src = 1, event_msg = message MsgPrepare 6 0 1\<rparr>,
        \<lparr>event_src = 1, event_msg = message MsgRoundChange 6 0 1\<rparr>,
        \<lparr>event_src = 2, event_msg = message MsgPreprepare 6 0 2\<rparr>,
        \<lparr>event_src = 3, event_msg = message MsgCommit 6 0 3\<rparr>]
     \<noteq> [\<lparr>event_src = 1, event_msg = message MsgRoundChange 6 0 1\<rparr>,
        \<lparr>event_src = 2, event_msg = message MsgPreprepare 6 0 2\<rparr>,
        \<lparr>event_src = 3, event_msg = message MsgCommit 6 0 3\<rparr>,
        \<lparr>event_src = 1, event_msg = message MsgPrepare 6 0 1\<rparr>]"
proof (intro conjI)
  show "started (processBacklog (afterArrivals\<lparr>current_Sequence := 6, current_Round := 0\<rparr>))
     = [\<lparr>event_src = 1, event_msg = message MsgRoundChange 6 0 1\<rparr>,
        \<lparr>event_src = 2, event_msg = message MsgPreprepare 6 0 2\<rparr>,
        \<lparr>event_src = 3, event_msg = message MsgCommit 6 0 3\<rparr>,
        \<lparr>event_src = 1, event_msg = message MsgPrepare 6 0 1\<rparr>]"
    by (rule arrivals_replayed)
  show "sendEvents
       [\<lparr>event_src = 1, event_msg = message MsgRoundChange 6 0 1\<rparr>,
        \<lparr>event_src = 2, event_msg = message MsgPreprepare 6 0 2\<rparr>,
        \<lparr>event_src = 3, event_msg = message MsgCommit 6 0 3\<rparr>,
        \<lparr>event_src = 1, event_msg = message MsgPrepare 6 0 1\<rparr>]
       [\<lparr>event_src = 1, event_msg = message MsgPrepare 6 0 1\<rparr>,
        \<lparr>event_src = 1, event_msg = message MsgRoundChange 6 0 1\<rparr>,
        \<lparr>event_src = 2, event_msg = message MsgPreprepare 6 0 2\<rparr>,
        \<lparr>event_src = 3, event_msg = message MsgCommit 6 0 3\<rparr>]"
    by (rule mset_sendEvents) simp
  show "[\<lparr>event_src = 1, event_msg = message MsgPrepare 6 0 1\<rparr>,
        \<lparr>event_src = 1, event_msg = message MsgRoundChange 6 0 1\<rparr>,
        \<lparr>event_src = 2, event_msg = message MsgPreprepare 6 0 2\<rparr>,
        \<lparr>event_src = 3, event_msg = message MsgCommit 6 0 3\<rparr>]
     \<noteq> [\<lparr>event_src = 1, event_msg = message MsgRoundChange 6 0 1\<rparr>,
        \<lparr>event_src = 2, event_msg = message MsgPreprepare 6 0 2\<rparr>,
        \<lparr>event_src = 3, event_msg = message MsgCommit 6 0 3\<rparr>,
        \<lparr>event_src = 1, event_msg = message MsgPrepare 6 0 1\<rparr>]"
    by (simp add: message_def MsgPrepare_def MsgRoundChange_def)
qed

end
